theory Spec2Isabelle
  imports Complex_Main
begin

unbundle bit_operations_syntax

section \<open>JavaScript string and BigInt primitives used by the engine\<close>

text \<open>
  JavaScript strings are modelled as HOL strings; every text the engine handles here is
  made of characters below U+0100, one \<open>char\<close> each.  A BigInt is an \<open>int\<close>.
\<close>

definition digit_char :: "nat \<Rightarrow> char" where
  "digit_char d = ''0123456789abcdef'' ! d"

text \<open>\<open>n.toString(16)\<close> and \<open>n.toString()\<close> of a non-negative BigInt.\<close>

function nonneg_toString16 :: "int \<Rightarrow> string" where
  "nonneg_toString16 n =
     (if n < 16 then [digit_char (nat n)]
      else nonneg_toString16 (n div 16) @ [digit_char (nat (n mod 16))])"
  by pat_completeness auto
termination
  by (relation "measure nat") auto

function nonneg_toString10 :: "int \<Rightarrow> string" where
  "nonneg_toString10 n =
     (if n < 10 then [digit_char (nat n)]
      else nonneg_toString10 (n div 10) @ [digit_char (nat (n mod 10))])"
  by pat_completeness auto
termination
  by (relation "measure nat") auto

declare nonneg_toString16.simps [simp del]
declare nonneg_toString10.simps [simp del]

definition bigint_toString16 :: "int \<Rightarrow> string" where
  "bigint_toString16 v = (if v < 0 then ''-'' @ nonneg_toString16 (- v) else nonneg_toString16 v)"

definition bigint_toString :: "int \<Rightarrow> string" where
  "bigint_toString v = (if v < 0 then ''-'' @ nonneg_toString10 (- v) else nonneg_toString10 v)"

text \<open>\<open>s.padStart(n, c)\<close> for a one-character pad.\<close>

definition padStart :: "nat \<Rightarrow> char \<Rightarrow> string \<Rightarrow> string" where
  "padStart n c s = replicate (n - length s) c @ s"

text \<open>\<open>xs.join(sep)\<close>.\<close>

fun join :: "string \<Rightarrow> string list \<Rightarrow> string" where
  "join sep [] = []"
| "join sep [x] = x"
| "join sep (x # y # ys) = x @ sep @ join sep (y # ys)"

text \<open>\<open>s.match(/.{4}/g)\<close> on a text without line terminators: the successive blocks of
  four characters, a shorter rest being dropped.\<close>

fun match_4 :: "string \<Rightarrow> string list" where
  "match_4 (a # b # c # d # rest) = [a, b, c, d] # match_4 rest"
| "match_4 _ = []"

text \<open>BigInt division truncates towards zero.\<close>

definition bigint_div :: "int \<Rightarrow> int \<Rightarrow> int" where
  "bigint_div a b = sgn a * sgn b * (\<bar>a\<bar> div \<bar>b\<bar>)"

definition is_digit :: "char \<Rightarrow> bool" where
  "is_digit c \<longleftrightarrow> c \<in> set ''0123456789''"

definition is_hex :: "char \<Rightarrow> bool" where
  "is_hex c \<longleftrightarrow> c \<in> set ''0123456789abcdefABCDEF''"

text \<open>White space and line terminators below U+0100: what \<open>trim\<close> removes and what the
  number parsers skip.\<close>

definition is_js_space :: "char \<Rightarrow> bool" where
  "is_js_space c \<longleftrightarrow>
     c \<in> set [CHR 0x09, CHR 0x0A, CHR 0x0B, CHR 0x0C, CHR 0x0D, CHR 0x20, CHR 0xA0]"

text \<open>The characters that \<open>.\<close> does not match in a regular expression.\<close>

definition is_line_terminator :: "char \<Rightarrow> bool" where
  "is_line_terminator c \<longleftrightarrow> c \<in> set [CHR 0x0A, CHR 0x0D]"

definition trim :: "string \<Rightarrow> string" where
  "trim s = rev (dropWhile is_js_space (rev (dropWhile is_js_space s)))"

text \<open>The value of a hexadecimal digit (0 for any other character).\<close>

definition digit_val :: "char \<Rightarrow> int" where
  "digit_val c =
     (case map_of (zip ''0123456789abcdefABCDEF''
                     [0, 1, 2, 3, 4, 5, 6, 7, 8, 9, 10, 11, 12, 13, 14, 15, 10, 11, 12, 13, 14, 15]) c
      of Some v \<Rightarrow> v | None \<Rightarrow> 0)"

definition dec_value :: "string \<Rightarrow> int" where
  "dec_value s = foldl (\<lambda>a c. 10 * a + digit_val c) 0 s"

definition hex_value :: "string \<Rightarrow> int" where
  "hex_value s = foldl (\<lambda>a c. 16 * a + digit_val c) 0 s"

text \<open>\<open>s.startsWith(p)\<close>.\<close>

fun starts_with :: "string \<Rightarrow> string \<Rightarrow> bool" where
  "starts_with s [] = True"
| "starts_with [] (p # ps) = False"
| "starts_with (x # xs) (p # ps) = (x = p \<and> starts_with xs ps)"

text \<open>\<open>s.split(c)\<close> for a one-character separator.\<close>

fun split_char :: "char \<Rightarrow> string \<Rightarrow> string list" where
  "split_char c [] = [[]]"
| "split_char c (x # xs) =
     (if x = c then [] # split_char c xs
      else (case split_char c xs of g # gs \<Rightarrow> (x # g) # gs | [] \<Rightarrow> [[x]]))"

text \<open>\<open>s.split('::')\<close>: the separator is looked for from left to right.\<close>

fun split_dcolon :: "string \<Rightarrow> string list" where
  "split_dcolon (a # b # rest) =
     (if a = CHR '':'' \<and> b = CHR '':'' then [] # split_dcolon rest
      else (case split_dcolon (b # rest) of g # gs \<Rightarrow> (a # g) # gs | [] \<Rightarrow> [[a]]))"
| "split_dcolon s = [s]"

text \<open>\<open>s.includes(sub)\<close>.\<close>

fun str_includes :: "string \<Rightarrow> string \<Rightarrow> bool" where
  "str_includes [] sub = (sub = [])"
| "str_includes (x # xs) sub = (starts_with (x # xs) sub \<or> str_includes xs sub)"

text \<open>The number of matches of \<open>/::/g\<close>.\<close>

fun count_dcolon :: "string \<Rightarrow> nat" where
  "count_dcolon (a # b # rest) =
     (if a = CHR '':'' \<and> b = CHR '':'' then Suc (count_dcolon rest) else count_dcolon (b # rest))"
| "count_dcolon s = 0"

text \<open>\<open>s.replace(/^\[|\]$/g, '')\<close>: drops an opening bracket at the start and a closing
  bracket at the end.\<close>

definition strip_brackets :: "string \<Rightarrow> string" where
  "strip_brackets s =
     (let s1 = (case s of c # r \<Rightarrow> if c = CHR ''['' then r else s | [] \<Rightarrow> s)
      in if s1 \<noteq> [] \<and> last s1 = CHR '']'' then butlast s1 else s1)"

text \<open>\<open>g.replace(/^0+/, '') || '0'\<close>.\<close>

definition strip_zeros :: "string \<Rightarrow> string" where
  "strip_zeros g = (let r = dropWhile (\<lambda>c. c = CHR ''0'') g in if r = [] then ''0'' else r)"

text \<open>The test of \<open>HEX_GROUP = /^[0-9a-fA-F]{1,4}$/\<close>.\<close>

definition HEX_GROUP :: "string \<Rightarrow> bool" where
  "HEX_GROUP g \<longleftrightarrow> 1 \<le> length g \<and> length g \<le> 4 \<and> list_all is_hex g"

text \<open>
  \<open>s.match(/^(.+)\/(\d{1,3})$/)\<close>: the two groups.  The second group holds no slash, so
  the slash of the pattern is the last one of the text.
\<close>

definition match_CIDR :: "string \<Rightarrow> (string \<times> string) option" where
  "match_CIDR s =
     (let g2 = rev (takeWhile (\<lambda>c. c \<noteq> CHR ''/'') (rev s));
          rest = dropWhile (\<lambda>c. c \<noteq> CHR ''/'') (rev s)
      in case rest of
           [] \<Rightarrow> None
         | slash # rg1 \<Rightarrow>
             if rg1 \<noteq> [] \<and> \<not> list_ex is_line_terminator rg1 \<and>
                1 \<le> length g2 \<and> length g2 \<le> 3 \<and> list_all is_digit g2
             then Some (rev rg1, g2) else None)"

text \<open>
  \<open>s.match(/^(.+)%(.+)$/)\<close>: the first group is greedy, so the percent sign of the pattern
  is the last one that still has a character after_groups it.
\<close>

definition match_ZONE_ID :: "string \<Rightarrow> (string \<times> string) option" where
  "match_ZONE_ID s =
     (if s = [] \<or> list_ex is_line_terminator s then None
      else (let b = butlast s;
                g2 = rev (takeWhile (\<lambda>c. c \<noteq> CHR ''%'') (rev b));
                rest = dropWhile (\<lambda>c. c \<noteq> CHR ''%'') (rev b)
            in case rest of
                 [] \<Rightarrow> None
               | pc # rg1 \<Rightarrow> if rg1 = [] then None else Some (rev rg1, g2 @ [last s])))"

text \<open>
  \<open>parseInt(s, 10)\<close>: white space, an optional sign, then the longest run of decimal
  digits; \<open>NaN\<close> (\<open>None\<close>) when there is no digit.
\<close>

definition parseInt10 :: "string \<Rightarrow> int option" where
  "parseInt10 s =
     (let s1 = dropWhile is_js_space s;
          neg = (s1 \<noteq> [] \<and> hd s1 = CHR ''-'');
          s2 = (if s1 \<noteq> [] \<and> (hd s1 = CHR ''-'' \<or> hd s1 = CHR ''+'') then tl s1 else s1);
          ds = takeWhile is_digit s2
      in if ds = [] then None
         else Some (if neg then - dec_value ds else dec_value ds))"

text \<open>\<open>parseInt(s)\<close> without a radix: a \<open>0x\<close> prefix selects base 16.\<close>

definition parseInt :: "string \<Rightarrow> int option" where
  "parseInt s =
     (let s1 = dropWhile is_js_space s;
          neg = (s1 \<noteq> [] \<and> hd s1 = CHR ''-'');
          s2 = (if s1 \<noteq> [] \<and> (hd s1 = CHR ''-'' \<or> hd s1 = CHR ''+'') then tl s1 else s1)
      in if starts_with s2 ''0x'' \<or> starts_with s2 ''0X'' then
           (let hs = takeWhile is_hex (drop 2 s2)
            in if hs = [] then None
               else Some (if neg then - hex_value hs else hex_value hs))
         else (let ds = takeWhile is_digit s2
               in if ds = [] then None
                  else Some (if neg then - dec_value ds else dec_value ds)))"

text \<open>
  \<open>BigInt('0x' + h)\<close>: white space at the end is skipped, the rest must be one or more
  hexadecimal digits; anything else raises (\<open>None\<close>).
\<close>

definition BigInt_0x :: "string \<Rightarrow> int option" where
  "BigInt_0x h =
     (let h' = rev (dropWhile is_js_space (rev h))
      in if h' \<noteq> [] \<and> list_all is_hex h' then Some (hex_value h') else None)"

section \<open>IPv6Utils: integer to text\<close>

text \<open>\<open>IPv6Utils.bigIntToIPv6\<close>: 32 hexadecimal digits, cut into groups of four.
  (The result cache in front of it is keyed by the argument and stores this value.)\<close>

definition bigIntToIPv6 :: "int \<Rightarrow> string" where
  "bigIntToIPv6 bigIntValue =
     (let hexStr = padStart 32 (CHR ''0'') (bigint_toString16 bigIntValue);
          groups = match_4 hexStr
      in join '':'' groups)"

section \<open>IPv6Utils: the address codec\<close>

text \<open>
  An exception is a value of type \<open>error\<close>; the message texts and the wrappers that only
  prepend a text to an inner message are dropped.  The memoising cache in front of
  \<open>validateIPv6\<close>, \<open>expandAddress\<close>, \<open>compressAddress\<close>, \<open>ipv6ToBigInt\<close>,
  \<open>bigIntToIPv6\<close> and \<open>getNetworkInfo\<close> is keyed by the function and its whole argument
  and stores what the function computes, so each of them is modelled by the function it
  caches.
\<close>

datatype error =
    NotAString | InvalidCidrPrefix | InvalidFormat | IncompleteAddress | TooManyGroups
  | InvalidHexGroup string | InvalidBigInt | InvalidPrefixLength | InvalidCidr
  | MissingPrefix | MissingArgument

definition validateCompressedFormat :: "string \<Rightarrow> bool" where
  "validateCompressedFormat address =
     (let parts = split_dcolon address
      in if length parts \<noteq> 2 then False
         else (let before_groups = (if parts ! 0 \<noteq> [] then filter (\<lambda>g. g \<noteq> []) (split_char CHR '':'' (parts ! 0)) else []);
                   after_groups = (if parts ! 1 \<noteq> [] then filter (\<lambda>g. g \<noteq> []) (split_char CHR '':'' (parts ! 1)) else [])
               in if length before_groups + length after_groups > 8 then False
                  else list_all HEX_GROUP (before_groups @ after_groups)))"

definition validateFullFormat :: "string \<Rightarrow> bool" where
  "validateFullFormat address =
     (let groups = split_char CHR '':'' address
      in if length groups \<noteq> 8 then False else list_all HEX_GROUP groups)"

definition isValidFormat :: "string \<Rightarrow> bool" where
  "isValidFormat address =
     (if address = [] then False
      else if \<not> list_all (\<lambda>c. is_hex c \<or> c = CHR '':'') address then False
      else if count_dcolon address > 1 then False
      else if str_includes address '':::'' then False
      else if str_includes address ''::'' then validateCompressedFormat address
      else validateFullFormat address)"

definition performExpansion :: "string \<Rightarrow> error + string" where
  "performExpansion address =
     (let addr = strip_brackets address
      in if \<not> str_includes addr ''::'' then
           (let groups = split_char CHR '':'' addr
            in if length groups \<noteq> 8 then Inl IncompleteAddress
               else Inr (join '':'' (map (padStart 4 CHR ''0'') groups)))
         else
           (let parts = split_dcolon addr;
                before_groups = (if parts ! 0 \<noteq> [] then filter (\<lambda>g. g \<noteq> []) (split_char CHR '':'' (parts ! 0)) else []);
                after_groups = (if parts ! 1 \<noteq> [] then filter (\<lambda>g. g \<noteq> []) (split_char CHR '':'' (parts ! 1)) else [])
            in if length before_groups + length after_groups > 8 then Inl TooManyGroups
               else (let zeros = replicate (8 - (length before_groups + length after_groups)) ''0000'';
                         allGroups = before_groups @ zeros @ after_groups
                     in case find (\<lambda>g. \<not> HEX_GROUP g) allGroups of
                          Some g \<Rightarrow> Inl (InvalidHexGroup g)
                        | None \<Rightarrow> Inr (join '':'' (map (padStart 4 CHR ''0'') allGroups)))))"

definition expandAddress :: "string \<Rightarrow> error + string" where
  "expandAddress address = performExpansion address"

text \<open>The state of the loop of \<open>performCompression\<close> that looks for the longest run of
  \<open>0000\<close> groups; \<open>-1\<close> is the start of no run.\<close>

record zero_run_state =
  bestStart :: int
  bestLength :: nat
  currentStart :: int
  currentLength :: nat

definition zero_run_step :: "string list \<Rightarrow> zero_run_state \<Rightarrow> nat \<Rightarrow> zero_run_state" where
  "zero_run_step groups st i =
     (if i < length groups \<and> groups ! i = ''0000'' then
        st \<lparr> currentStart := (if currentStart st = - 1 then int i else currentStart st),
             currentLength := currentLength st + 1 \<rparr>
      else
        (if currentLength st > bestLength st
         then st \<lparr> bestLength := currentLength st, bestStart := currentStart st \<rparr>
         else st) \<lparr> currentStart := - 1, currentLength := 0 \<rparr>)"

definition zero_run_search :: "string list \<Rightarrow> zero_run_state" where
  "zero_run_search groups =
     (let st = foldl (zero_run_step groups)
                 \<lparr> bestStart = - 1, bestLength = 0, currentStart = - 1, currentLength = 0 \<rparr> [0..<8]
      in if currentLength st > bestLength st
         then st \<lparr> bestLength := currentLength st, bestStart := currentStart st \<rparr>
         else st)"

definition performCompression :: "string \<Rightarrow> string" where
  "performCompression address =
     (case expandAddress address of
        Inl e \<Rightarrow> address
      | Inr expanded' \<Rightarrow>
          (let groups = split_char CHR '':'' expanded';
               st = zero_run_search groups
           in if bestLength st < 2 then join '':'' (map strip_zeros groups)
              else (let before_groups = map strip_zeros (take (nat (bestStart st)) groups);
                        after_groups = map strip_zeros (drop (nat (bestStart st) + bestLength st) groups)
                    in if before_groups = [] \<and> after_groups = [] then ''::''
                       else if before_groups = [] then ''::'' @ join '':'' after_groups
                       else if after_groups = [] then join '':'' before_groups @ ''::''
                       else join '':'' before_groups @ ''::'' @ join '':'' after_groups)))"

definition compressAddress :: "string \<Rightarrow> string" where
  "compressAddress address = performCompression address"

definition ipv6ToBigInt :: "string \<Rightarrow> error + int" where
  "ipv6ToBigInt address =
     (case expandAddress address of
        Inl e \<Rightarrow> Inl e
      | Inr expanded' \<Rightarrow>
          (let hexString = filter (\<lambda>c. c \<noteq> CHR '':'') expanded'
           in case BigInt_0x hexString of None \<Rightarrow> Inl InvalidBigInt | Some v \<Rightarrow> Inr v))"


text \<open>The result of a successful \<open>validateIPv6\<close> (without the display fields
  \<open>type\<close> and \<open>scope\<close>); a failed one is an \<open>error\<close>.\<close>

record validation =
  v_original :: string
  cleanAddress :: string
  v_prefix :: "int option"
  zoneId :: "string option"
  expanded :: string
  compressed :: string

definition performValidation :: "string \<Rightarrow> error + validation" where
  "performValidation address =
     (let (cleanAddress0, prefix') =
            (case match_CIDR address of
               Some (g1, g2) \<Rightarrow> (g1, parseInt10 g2)
             | None \<Rightarrow> (address, None))
      in if (case prefix' of Some p \<Rightarrow> p < 0 \<or> p > 128 | None \<Rightarrow> False) then Inl InvalidCidrPrefix
         else
           (let (cleanAddress1, zoneId') =
                  (case match_ZONE_ID cleanAddress0 of
                     Some (g1, g2) \<Rightarrow> (g1, Some g2)
                   | None \<Rightarrow> (cleanAddress0, None));
                cleanAddress2 = strip_brackets cleanAddress1
            in if \<not> isValidFormat cleanAddress2 then Inl InvalidFormat
               else (case expandAddress cleanAddress2 of
                       Inl e \<Rightarrow> Inl e
                     | Inr expanded' \<Rightarrow>
                         Inr \<lparr> v_original = address, cleanAddress = cleanAddress2,
                               v_prefix = prefix', zoneId = zoneId', expanded = expanded',
                               compressed = compressAddress cleanAddress2 \<rparr>)))"

definition validateIPv6 :: "string \<Rightarrow> error + validation" where
  "validateIPv6 address =
     (if address = [] then Inl NotAString else performValidation (trim address))"

text \<open>\<open>calculateNetworkMask\<close>; the argument is a Number, \<open>None\<close> being \<open>NaN\<close>, on
  which \<open>BigInt\<close> raises.\<close>

definition calculateNetworkMask :: "int option \<Rightarrow> error + int" where
  "calculateNetworkMask prefixLength =
     (case prefixLength of
        None \<Rightarrow> Inl InvalidBigInt
      | Some p \<Rightarrow>
          if p < 0 \<or> p > 128 then Inl InvalidPrefixLength
          else if p = 0 then Inr 0
          else Inr (push_bit (nat (128 - p)) (push_bit (nat p) 1 - 1)))"

text \<open>\<open>xs[i]\<close> of an array of texts, \<open>None\<close> being \<open>undefined\<close>.\<close>

definition array_get :: "'a list \<Rightarrow> nat \<Rightarrow> 'a option" where
  "array_get xs i = (if i < length xs then Some (xs ! i) else None)"

text \<open>\<open>parseInt\<close> of a text that may be \<open>undefined\<close> (which reads as \<open>NaN\<close>).\<close>

definition parseInt10_opt :: "string option \<Rightarrow> int option" where
  "parseInt10_opt s = (case s of None \<Rightarrow> None | Some t \<Rightarrow> parseInt10 t)"

definition parseInt_opt :: "string option \<Rightarrow> int option" where
  "parseInt_opt s = (case s of None \<Rightarrow> None | Some t \<Rightarrow> parseInt t)"

text \<open>
  The object that \<open>getNetworkInfo\<close> returns (without its display texts
  \<open>totalAddresses\<close> and \<open>compressed\<close>), and the one that
  \<open>validateAndGetNetworkInfo\<close> hands to the classifier, which adds the original text.
\<close>

record network_info =
  network :: string
  broadcast :: string
  networkBigInt :: int
  broadcastBigInt :: int
  prefix :: int
  mask :: int
  hostBits :: int

record checked_network = network_info +
  original :: string

definition getNetworkInfo :: "string \<Rightarrow> error + network_info" where
  "getNetworkInfo cidr =
     (case validateIPv6 cidr of
        Inl e \<Rightarrow> Inl InvalidCidr
      | Inr validation' \<Rightarrow>
          (let parts = split_char CHR ''/'' cidr;
               address = parts ! 0;
               prefixStr = array_get parts 1;
               prefix' = parseInt10_opt prefixStr
           in case ipv6ToBigInt address of
                Inl e \<Rightarrow> Inl e
              | Inr ipBigInt \<Rightarrow>
                  (case calculateNetworkMask prefix' of
                     Inl e \<Rightarrow> Inl e
                   | Inr mask' \<Rightarrow>
                       (let p = the prefix';
                            network' = ipBigInt AND mask';
                            broadcast' = network' + push_bit (nat (128 - p)) 1 - 1
                        in Inr \<lparr> network = bigIntToIPv6 network',
                                 broadcast = bigIntToIPv6 broadcast',
                                 networkBigInt = network',
                                 broadcastBigInt = broadcast',
                                 prefix = p,
                                 mask = mask',
                                 hostBits = 128 - p \<rparr>))))"

section \<open>OverlapEngine: the overlap classifier\<close>

datatype overlap_type =
  IDENTICAL | FIRST_CONTAINS_SECOND | SECOND_CONTAINS_FIRST | PARTIAL | ADJACENT | NO_OVERLAP

datatype severity_level = CRITICAL | HIGH | MEDIUM | LOW | NONE

text \<open>The \<open>level\<close> field of \<open>SEVERITY_LEVELS\<close>.\<close>

fun level :: "severity_level \<Rightarrow> nat" where
  "level CRITICAL = 4"
| "level HIGH = 3"
| "level MEDIUM = 2"
| "level LOW = 1"
| "level NONE = 0"

datatype analysis_details =
    OverlapDetails (overlapStart: string) (overlapEnd: string) (overlapSize: string)
      (percentageOverlap: "int option")
  | NoOverlapDetails (distance: string) (isAdjacent: bool) (gap: string)

text \<open>
  The analysis object.  Its \<open>reason\<close> and \<open>affectedAddresses\<close> display texts are not
  part of the model.
\<close>

record overlap_analysis =
  hasOverlap :: bool
  type :: overlap_type
  severity :: severity_level
  confidence :: nat
  details :: analysis_details

definition calculateDistance :: "int \<Rightarrow> int \<Rightarrow> int \<Rightarrow> int \<Rightarrow> int" where
  "calculateDistance start1 end1 start2 end2 =
     (if end1 < start2 then start2 - end1 - 1
      else if end2 < start1 then start1 - end2 - 1
      else 0)"

text \<open>
  \<open>calculateOverlapPercentage\<close>.  The quotient is a BigInt quotient; a zero divisor raises
  and the handler returns 0.  \<open>Number(q)\<close> and \<open>Math.round(q * 100) / 100\<close> are exact
  and give \<open>q\<close> back as long as \<open>|q| * 100 \<le> 2^53\<close>; beyond that window the
  floating-point result is not modelled (\<open>None\<close>).
\<close>

definition calculateOverlapPercentage :: "checked_network \<Rightarrow> checked_network \<Rightarrow> int \<Rightarrow> int option" where
  "calculateOverlapPercentage network1 network2 overlapSize' =
     (let size1 = broadcastBigInt network1 - networkBigInt network1 + 1;
          size2 = broadcastBigInt network2 - networkBigInt network2 + 1;
          smallerSize = (if size1 < size2 then size1 else size2)
      in if smallerSize = 0 then Some 0
         else (let percentage = bigint_div (overlapSize' * 100) smallerSize
               in if \<bar>percentage\<bar> * 100 \<le> 2 ^ 53 then Some percentage else None))"

definition analyzeNoOverlap ::
  "checked_network \<Rightarrow> checked_network \<Rightarrow> int \<Rightarrow> int \<Rightarrow> int \<Rightarrow> int \<Rightarrow> overlap_analysis" where
  "analyzeNoOverlap network1 network2 start1 end1 start2 end2 =
     (let isAdjacent' = (end1 + 1 = start2) \<or> (end2 + 1 = start1);
          distance' = calculateDistance start1 end1 start2 end2
      in \<lparr> hasOverlap = False,
           type = (if isAdjacent' then ADJACENT else NO_OVERLAP),
           severity = NONE,
           confidence = 100,
           details = NoOverlapDetails (bigint_toString distance') isAdjacent'
                       (if isAdjacent' then ''0'' else bigint_toString distance') \<rparr>)"

definition analyzeOverlapDetails ::
  "checked_network \<Rightarrow> checked_network \<Rightarrow> int \<Rightarrow> int \<Rightarrow> int \<Rightarrow> int \<Rightarrow> overlap_analysis" where
  "analyzeOverlapDetails network1 network2 start1 end1 start2 end2 =
     (let (overlapType, severity') =
            (if start1 = start2 \<and> end1 = end2 then (IDENTICAL, CRITICAL)
             else if start1 \<le> start2 \<and> end1 \<ge> end2 then (FIRST_CONTAINS_SECOND, HIGH)
             else if start2 \<le> start1 \<and> end2 \<ge> end1 then (SECOND_CONTAINS_FIRST, HIGH)
             else (PARTIAL, MEDIUM));
          overlapStart' = (if start1 > start2 then start1 else start2);
          overlapEnd' = (if end1 < end2 then end1 else end2);
          overlapSize' = overlapEnd' - overlapStart' + 1;
          percentageOverlap' = calculateOverlapPercentage network1 network2 overlapSize'
      in \<lparr> hasOverlap = True,
           type = overlapType,
           severity = severity',
           confidence = 100,
           details = OverlapDetails (bigIntToIPv6 overlapStart') (bigIntToIPv6 overlapEnd')
                       (bigint_toString overlapSize') percentageOverlap' \<rparr>)"

definition analyzeOverlap :: "checked_network \<Rightarrow> checked_network \<Rightarrow> overlap_analysis" where
  "analyzeOverlap network1 network2 =
     (let start1 = networkBigInt network1;
          end1 = broadcastBigInt network1;
          start2 = networkBigInt network2;
          end2 = broadcastBigInt network2;
          hasOverlap' = (start1 \<le> start2 \<and> end1 \<ge> start2) \<or> (start2 \<le> start1 \<and> end2 \<ge> start1)
      in if \<not> hasOverlap' then analyzeNoOverlap network1 network2 start1 end1 start2 end2
         else analyzeOverlapDetails network1 network2 start1 end1 start2 end2)"

text \<open>A range is valid when its base does not exceed its last address.\<close>

definition valid_range :: "checked_network \<Rightarrow> bool" where
  "valid_range n \<longleftrightarrow> networkBigInt n \<le> broadcastBigInt n"

text \<open>A range given by its two ends, for concrete inputs.\<close>

definition range_of :: "int \<Rightarrow> int \<Rightarrow> checked_network" where
  "range_of a0 a1 =
     \<lparr> network = bigIntToIPv6 a0, broadcast = bigIntToIPv6 a1, networkBigInt = a0,
       broadcastBigInt = a1, prefix = 0, mask = 0, hostBits = 128, original = [] \<rparr>"


text \<open>The \<open>overlapSize\<close> a result reports, if it reports one.\<close>

definition reported_overlapSize :: "overlap_analysis \<Rightarrow> string option" where
  "reported_overlapSize r =
     (case details r of OverlapDetails s e z p \<Rightarrow> Some z | NoOverlapDetails d a g \<Rightarrow> None)"

definition reported_percentage :: "overlap_analysis \<Rightarrow> int option" where
  "reported_percentage r =
     (case details r of OverlapDetails s e z p \<Rightarrow> p | NoOverlapDetails d a g \<Rightarrow> None)"

text \<open>
  The percentage as the specification words it: \<open>overlapSize * 100 / min(sizeA, sizeB)\<close>,
  rounded to two decimals.
\<close>

definition percentageOfSmaller_spec :: "int \<Rightarrow> int \<Rightarrow> int \<Rightarrow> rat" where
  "percentageOfSmaller_spec ovSize sizeA sizeB =
     of_int (round (of_int (ovSize * 100) / of_int (min sizeA sizeB) * (100 :: rat))) / 100"

section \<open>OverlapEngine: checks on CIDR texts\<close>

definition validateAndGetNetworkInfo :: "string \<Rightarrow> error + checked_network" where
  "validateAndGetNetworkInfo cidr =
     (if \<not> str_includes cidr ''/'' then Inl MissingPrefix
      else (case validateIPv6 cidr of
              Inl e \<Rightarrow> Inl InvalidCidr
            | Inr validation' \<Rightarrow>
                (case getNetworkInfo cidr of
                   Inl e \<Rightarrow> Inl e
                 | Inr networkInfo \<Rightarrow> Inr (network_info.extend networkInfo \<lparr> original = cidr \<rparr>))))"

text \<open>
  The result of \<open>checkOverlapAdvanced\<close>; an error result (whose \<open>hasOverlap\<close> is
  \<open>null\<close>) is an \<open>error\<close>.  The options are the empty object.  The recommendation list
  and the timing, which are built after the analysis and raise nothing (the suggestion of
  a recommendation catches its own errors), are not part of the model; neither is the
  cache, whose key holds both texts and whose values are what is computed here.
\<close>

record advanced_result =
  r_hasOverlap :: bool
  overlapType :: overlap_type
  r_severity :: severity_level
  r_confidence :: nat
  cidr1 :: string
  cidr2 :: string
  network1 :: checked_network
  network2 :: checked_network
  analysis :: overlap_analysis

definition checkOverlapAdvanced :: "string \<Rightarrow> string \<Rightarrow> error + advanced_result" where
  "checkOverlapAdvanced c1 c2 =
     (if c1 = [] \<or> c2 = [] then Inl MissingArgument
      else (case validateAndGetNetworkInfo c1 of
              Inl e \<Rightarrow> Inl e
            | Inr n1 \<Rightarrow>
                (case validateAndGetNetworkInfo c2 of
                   Inl e \<Rightarrow> Inl e
                 | Inr n2 \<Rightarrow>
                     (let overlapAnalysis = analyzeOverlap n1 n2
                      in Inr \<lparr> r_hasOverlap = hasOverlap overlapAnalysis,
                               overlapType = type overlapAnalysis,
                               r_severity = severity overlapAnalysis,
                               r_confidence = confidence overlapAnalysis,
                               cidr1 = c1, cidr2 = c2, network1 = n1, network2 = n2,
                               analysis = overlapAnalysis \<rparr>))))"

text \<open>The result of \<open>checkOverlap\<close>: \<open>hasOverlap\<close> is \<open>null\<close> (\<open>None\<close>) after an
  error, and then there is no type and no severity.\<close>

record simple_result =
  s_hasOverlap :: "bool option"
  s_type :: "overlap_type option"
  s_severity :: "severity_level option"

definition checkOverlap :: "string \<Rightarrow> string \<Rightarrow> simple_result" where
  "checkOverlap c1 c2 =
     (case checkOverlapAdvanced c1 c2 of
        Inr r \<Rightarrow> \<lparr> s_hasOverlap = Some (r_hasOverlap r), s_type = Some (overlapType r),
                   s_severity = Some (r_severity r) \<rparr>
      | Inl e \<Rightarrow> \<lparr> s_hasOverlap = None, s_type = None, s_severity = None \<rparr>)"

text \<open>
  \<open>generateSuggestion\<close>; \<open>None\<close> is \<open>null\<close>.  Only the second argument is read.
  \<open>1n << n\<close> with a negative \<open>n\<close> shifts to the right.
\<close>

definition generateSuggestion :: "string \<Rightarrow> string \<Rightarrow> string option" where
  "generateSuggestion lanPrefix wanPrefix =
     (let wanPrefixLen = array_get (split_char CHR ''/'' wanPrefix) 1
      in case getNetworkInfo wanPrefix of
           Inl e \<Rightarrow> None
         | Inr wanNetwork \<Rightarrow>
             (case parseInt_opt wanPrefixLen of
                None \<Rightarrow> None
              | Some prefixLength \<Rightarrow>
                  (let increment = (if 128 - prefixLength \<ge> 0 then push_bit (nat (128 - prefixLength)) 1
                                    else drop_bit (nat (prefixLength - 128)) (1 :: int));
                       maxIPv6 = push_bit 128 1 - (1 :: int);
                       first = networkBigInt wanNetwork + increment;
                       candidate =
                         (if first > maxIPv6 then
                            (let second = networkBigInt wanNetwork - increment
                             in if second < 0 then None else Some second)
                          else Some first)
                   in case candidate of
                        None \<Rightarrow> None
                      | Some suggestedBigInt \<Rightarrow>
                          (let suggestedAddr = bigIntToIPv6 suggestedBigInt;
                               compressedAddr = compressAddress suggestedAddr;
                               suggestion = compressedAddr @ ''/'' @ bigint_toString prefixLength;
                               testResult = checkOverlap suggestion wanPrefix
                           in if s_hasOverlap testResult \<noteq> Some True then Some suggestion
                              else None))))"

section \<open>OverlapEngine: batch analysis\<close>

text \<open>The \<open>label\<close> field of \<open>SEVERITY_LEVELS\<close>; the accented letters are the
  characters U+00ED and U+00E9.\<close>

fun label :: "severity_level \<Rightarrow> string" where
  "label CRITICAL = ''Cr'' @ [CHR 0xED] @ ''tico''"
| "label HIGH = ''Alto''"
| "label MEDIUM = ''M'' @ [CHR 0xE9] @ ''dio''"
| "label LOW = ''Baixo''"
| "label NONE = ''Sem Conflito''"

text \<open>\<open>s.toLowerCase()\<close> on characters below U+0100: the letters A to Z and the
  accented capitals U+00C0 to U+00DE (without the sign U+00D7) move up by 32.\<close>

definition char_toLowerCase :: "char \<Rightarrow> char" where
  "char_toLowerCase c =
     (let n = of_char c :: nat
      in if (65 \<le> n \<and> n \<le> 90) \<or> (192 \<le> n \<and> n \<le> 222 \<and> n \<noteq> 215) then char_of (n + 32) else c)"

definition toLowerCase :: "string \<Rightarrow> string" where
  "toLowerCase s = map char_toLowerCase s"

text \<open>An entry of \<open>validPrefixes\<close>, an entry of \<open>results\<close> (without its display fields)
  and an entry of \<open>conflicts\<close> (without its texts and recommendations).\<close>

record valid_prefix =
  vp_index :: nat
  vp_prefix :: string
  vp_validation :: validation

record batch_result =
  index :: nat
  b_prefix :: string
  valid :: bool

record conflict =
  indices :: "nat \<times> nat"
  prefixes :: "string \<times> string"
  c_overlapType :: "overlap_type option"
  c_severity :: "severity_level option"

record severity_breakdown =
  critical :: nat
  high :: nat
  medium :: nat
  low :: nat

text \<open>The statistics object, without \<open>validationRate\<close> and \<open>conflictRate\<close> (which
  round floating-point quotients).\<close>

record batch_statistics =
  total :: nat
  valid_count :: nat
  invalid :: nat
  conflictCount :: nat
  severityBreakdown :: severity_breakdown
  healthScore :: int

record batch_report =
  results :: "batch_result list"
  conflicts :: "conflict list"
  statistics :: batch_statistics

text \<open>One step of the \<open>forEach\<close> over the conflicts: \<open>severityBreakdown\<close> has the four
  own properties \<open>critical\<close>, \<open>high\<close>, \<open>medium\<close> and \<open>low\<close>, and only a level that
  is one of them is counted.\<close>

definition tally_severity :: "severity_breakdown \<Rightarrow> conflict \<Rightarrow> severity_breakdown" where
  "tally_severity sb c =
     (case c_severity c of
        None \<Rightarrow> sb
      | Some sev \<Rightarrow>
          (let level' = toLowerCase (label sev)
           in if level' = ''critical'' then sb \<lparr> critical := critical sb + 1 \<rparr>
              else if level' = ''high'' then sb \<lparr> high := high sb + 1 \<rparr>
              else if level' = ''medium'' then sb \<lparr> medium := medium sb + 1 \<rparr>
              else if level' = ''low'' then sb \<lparr> low := low sb + 1 \<rparr>
              else sb))"

definition generateBatchStatistics :: "batch_result list \<Rightarrow> conflict list \<Rightarrow> batch_statistics" where
  "generateBatchStatistics rs cs =
     (let total' = length rs;
          valid' = length (filter valid rs);
          invalid' = total' - valid';
          conflictCount' = length cs;
          severityBreakdown' =
            foldl tally_severity \<lparr> critical = 0, high = 0, medium = 0, low = 0 \<rparr> cs;
          healthScore' =
            (if total' > 0 then max 0 (100 - int invalid' * 10 - int conflictCount' * 15) else 100)
      in \<lparr> total = total', valid_count = valid', invalid = invalid',
           conflictCount = conflictCount', severityBreakdown = severityBreakdown',
           healthScore = healthScore' \<rparr>)"

text \<open>The first loop of \<open>analyzeBatch\<close>, from index \<open>i\<close> on: the valid entries go to
  \<open>validPrefixes\<close>, the others to \<open>results\<close>, each with its index.\<close>

fun validate_entries :: "nat \<Rightarrow> string list \<Rightarrow> valid_prefix list \<times> batch_result list" where
  "validate_entries i [] = ([], [])"
| "validate_entries i (p # ps) =
     (let (vs, rs) = validate_entries (Suc i) ps
      in case validateIPv6 p of
           Inr validation' \<Rightarrow>
             (\<lparr> vp_index = i, vp_prefix = p, vp_validation = validation' \<rparr> # vs, rs)
         | Inl e \<Rightarrow> (vs, \<lparr> index = i, b_prefix = p, valid = False \<rparr> # rs))"

text \<open>The pairs \<open>(validPrefixes[i], validPrefixes[j])\<close> with \<open>i < j\<close>, in the order in
  which the two nested loops visit them.\<close>

fun compared_pairs :: "'a list \<Rightarrow> ('a \<times> 'a) list" where
  "compared_pairs [] = []"
| "compared_pairs (x # xs) = map (Pair x) xs @ compared_pairs xs"

text \<open>The body of the inner loop: a conflict is pushed when \<open>hasOverlap\<close> is true.
  \<open>checkOverlapAdvanced\<close> catches its own errors, so the handler around it is never
  entered.\<close>

definition compare_pair :: "valid_prefix \<times> valid_prefix \<Rightarrow> conflict option" where
  "compare_pair pq =
     (case checkOverlapAdvanced (vp_prefix (fst pq)) (vp_prefix (snd pq)) of
        Inr overlapResult \<Rightarrow>
          if r_hasOverlap overlapResult then
            Some \<lparr> indices = (vp_index (fst pq), vp_index (snd pq)),
                   prefixes = (vp_prefix (fst pq), vp_prefix (snd pq)),
                   c_overlapType = Some (overlapType overlapResult),
                   c_severity = Some (r_severity overlapResult) \<rparr>
          else None
      | Inl e \<Rightarrow> None)"

definition analyzeBatch :: "string list \<Rightarrow> batch_report" where
  "analyzeBatch prefixes' =
     (let (validPrefixes, invalidResults) = validate_entries 0 prefixes';
          conflicts' = List.map_filter compare_pair (compared_pairs validPrefixes);
          results' = invalidResults @
            map (\<lambda>vp. \<lparr> index = vp_index vp, b_prefix = vp_prefix vp, valid = True \<rparr>) validPrefixes;
          stats = generateBatchStatistics results' conflicts'
      in \<lparr> results = sort_key index results', conflicts = conflicts', statistics = stats \<rparr>)"

text \<open>The entries that the first loop of \<open>analyzeBatch\<close> finds valid, and the pairs that
  its second loop compares.\<close>

definition batch_validPrefixes :: "string list \<Rightarrow> valid_prefix list" where
  "batch_validPrefixes prefixes' = fst (validate_entries 0 prefixes')"

definition batch_comparisons :: "string list \<Rightarrow> (valid_prefix \<times> valid_prefix) list" where
  "batch_comparisons prefixes' = compared_pairs (batch_validPrefixes prefixes')"

text \<open>An entry is valid for the batch when \<open>validateIPv6\<close> accepts it.\<close>

definition entry_is_valid :: "string \<Rightarrow> bool" where
  "entry_is_valid p = (case validateIPv6 p of Inr v \<Rightarrow> True | Inl e \<Rightarrow> False)"

text \<open>The batch of Example 5 of the specification.\<close>

definition example_batch :: "string list" where
  "example_batch = [''2001:db8::1/64'', ''not-an-ip'', ''2001:db8::2/64'']"

section \<open>The result caches\<close>

text \<open>
  A cache is a JavaScript \<open>Map\<close> from key texts to items \<open>{value, timestamp}\<close>.  A
  \<open>Map\<close> keeps its keys in insertion order, so it is an association list with distinct
  keys: \<open>set\<close> on a present key replaces the item in place, on a new key appends.
  \<open>Date.now()\<close> is a parameter of every operation that reads the clock.
\<close>

record 'v cache_item =
  cached_value :: 'v
  timestamp :: int

type_synonym 'v js_map = "(string \<times> 'v cache_item) list"

record cache_config =
  CACHE_TTL :: int
  CACHE_MAX_SIZE :: nat

definition utils_config :: cache_config where
  "utils_config = \<lparr> CACHE_TTL = 300000, CACHE_MAX_SIZE = 1000 \<rparr>"

definition engine_config :: cache_config where
  "engine_config = \<lparr> CACHE_TTL = 300000, CACHE_MAX_SIZE = 500 \<rparr>"

definition map_delete :: "'v js_map \<Rightarrow> string \<Rightarrow> 'v js_map" where
  "map_delete m k = filter (\<lambda>kv. fst kv \<noteq> k) m"

definition map_set :: "'v js_map \<Rightarrow> string \<Rightarrow> 'v cache_item \<Rightarrow> 'v js_map" where
  "map_set m k e =
     (if k \<in> set (map fst m) then map (\<lambda>kv. if fst kv = k then (k, e) else kv) m
      else m @ [(k, e)])"

definition map_get :: "'v js_map \<Rightarrow> string \<Rightarrow> 'v cache_item option" where
  "map_get m k = map_of m k"

text \<open>\<open>cleanExpiredCache\<close> (the same in both classes): collect the keys of the items older
  than the TTL, then delete them.\<close>

definition cleanExpiredCache :: "cache_config \<Rightarrow> 'v js_map \<Rightarrow> int \<Rightarrow> 'v js_map" where
  "cleanExpiredCache cfg m now =
     (let toDelete = map fst (filter (\<lambda>kv. now - timestamp (snd kv) > CACHE_TTL cfg) m)
      in fold (\<lambda>key m'. map_delete m' key) toDelete m)"

text \<open>\<open>getFromCache\<close> (the same in both classes): the value of a fresh item; a miss or a
  stale item deletes the key.\<close>

definition getFromCache :: "cache_config \<Rightarrow> 'v js_map \<Rightarrow> string \<Rightarrow> int \<Rightarrow> 'v option \<times> 'v js_map" where
  "getFromCache cfg m key now =
     (case map_get m key of
        Some item \<Rightarrow>
          if now - timestamp item < CACHE_TTL cfg then (Some (cached_value item), m)
          else (None, map_delete m key)
      | None \<Rightarrow> (None, map_delete m key))"

text \<open>
  \<open>IPv6Utils.setToCache\<close>.  \<open>Math.floor(CACHE_MAX_SIZE * 0.3)\<close> is
  \<open>3 * CACHE_MAX_SIZE div 10\<close> (300 for the size 1000 of the class); \<open>Array.sort\<close> is
  stable, as \<open>sort_key\<close> is.
\<close>

definition utils_setToCache ::
  "cache_config \<Rightarrow> 'v js_map \<Rightarrow> string \<Rightarrow> 'v \<Rightarrow> int \<Rightarrow> int \<Rightarrow> 'v js_map" where
  "utils_setToCache cfg m key v now_clean now_set =
     (let m1 =
        (if length m \<ge> CACHE_MAX_SIZE cfg then
           (let m' = cleanExpiredCache cfg m now_clean
            in if length m' \<ge> CACHE_MAX_SIZE cfg then
                 (let entries = sort_key (\<lambda>kv. timestamp (snd kv)) m';
                      toRemove = take (3 * CACHE_MAX_SIZE cfg div 10) entries
                  in fold (\<lambda>kv m''. map_delete m'' (fst kv)) toRemove m')
               else m')
         else m)
      in map_set m1 key \<lparr> cached_value = v, timestamp = now_set \<rparr>)"

text \<open>\<open>OverlapEngine.setToCache\<close>: after the purge it deletes the first key of the map
  only (\<open>delete(undefined)\<close> on an empty map does nothing).\<close>

definition engine_setToCache ::
  "cache_config \<Rightarrow> 'v js_map \<Rightarrow> string \<Rightarrow> 'v \<Rightarrow> int \<Rightarrow> int \<Rightarrow> 'v js_map" where
  "engine_setToCache cfg m key v now_clean now_set =
     (let m1 =
        (if length m \<ge> CACHE_MAX_SIZE cfg then
           (let m' = cleanExpiredCache cfg m now_clean
            in if length m' \<ge> CACHE_MAX_SIZE cfg then
                 (case m' of [] \<Rightarrow> m' | (oldestKey, item) # rest \<Rightarrow> map_delete m' oldestKey)
               else m')
         else m)
      in map_set m1 key \<lparr> cached_value = v, timestamp = now_set \<rparr>)"

text \<open>The items that \<open>cleanExpiredCache\<close> leaves: those not older than the TTL.\<close>

definition purge_expired :: "cache_config \<Rightarrow> 'v js_map \<Rightarrow> int \<Rightarrow> 'v js_map" where
  "purge_expired cfg m now = filter (\<lambda>kv. \<not> now - timestamp (snd kv) > CACHE_TTL cfg) m"

text \<open>A cache of \<open>n\<close> items written at times \<open>0, 1, \<dots>, n - 1\<close>, in this order.\<close>

definition numbered_cache :: "nat \<Rightarrow> unit js_map" where
  "numbered_cache n = map (\<lambda>i. (bigint_toString (int i), \<lparr> cached_value = (), timestamp = int i \<rparr>)) [0..<n]"

text \<open>A small configuration, for concrete runs.\<close>

definition small_config :: cache_config where
  "small_config = \<lparr> CACHE_TTL = 10, CACHE_MAX_SIZE = 4 \<rparr>"

text \<open>A group of an expanded address: four hexadecimal digits.\<close>

definition hex4 :: "string \<Rightarrow> bool" where
  "hex4 g \<longleftrightarrow> length g = 4 \<and> list_all is_hex g"

text \<open>The expanded texts: eight groups of four hexadecimal digits, joined by colons.\<close>

definition expanded_groups :: "string list \<Rightarrow> bool" where
  "expanded_groups gs \<longleftrightarrow> length gs = 8 \<and> list_all hex4 gs"

text \<open>No two colons in a row.\<close>

fun no_dcolon :: "string \<Rightarrow> bool" where
  "no_dcolon (a # b # s) = (\<not> (a = CHR '':'' \<and> b = CHR '':'') \<and> no_dcolon (b # s))"
| "no_dcolon [] = True"
| "no_dcolon [a] = True"

text \<open>A text has clean ends when it neither starts nor ends with a colon.\<close>

definition clean_ends :: "string \<Rightarrow> bool" where
  "clean_ends s \<longleftrightarrow> s = [] \<or> (hd s \<noteq> CHR '':'' \<and> last s \<noteq> CHR '':'')"

text \<open>A group of a compressed text: not empty and without a colon.\<close>

definition plain_group :: "string \<Rightarrow> bool" where
  "plain_group g \<longleftrightarrow> g \<noteq> [] \<and> CHR '':'' \<notin> set g"

text \<open>The groups \<open>s, \<dots>, s + l - 1\<close> are all \<open>0000\<close>.\<close>

definition zero_run :: "string list \<Rightarrow> nat \<Rightarrow> nat \<Rightarrow> bool" where
  "zero_run gs s l \<longleftrightarrow> s + l \<le> length gs \<and> (\<forall>k<l. gs ! (s + k) = ''0000'')"

text \<open>The run of \<open>l\<close> groups at \<open>s\<close> is a longest run of \<open>0000\<close> groups, and the
  leftmost of the longest ones.\<close>

definition longest_leftmost_zero_run :: "string list \<Rightarrow> nat \<Rightarrow> nat \<Rightarrow> bool" where
  "longest_leftmost_zero_run gs s l \<longleftrightarrow>
     0 < l \<and> zero_run gs s l \<and>
     (\<forall>s' l'. zero_run gs s' l' \<longrightarrow> l' \<le> l) \<and>
     (\<forall>s'. zero_run gs s' l \<longrightarrow> s \<le> s')"

text \<open>The invariant of the search loop before it reads group \<open>n\<close>: the current run is the
  run of zero groups that ends at \<open>n\<close>, and the best run is the leftmost longest one that
  ends before the current run.\<close>

definition run_inv :: "string list \<Rightarrow> nat \<Rightarrow> zero_run_state \<Rightarrow> bool" where
  "run_inv gs n st \<longleftrightarrow>
     currentLength st \<le> n \<and>
     zero_run gs (n - currentLength st) (currentLength st) \<and>
     (currentLength st < n \<longrightarrow> gs ! (n - currentLength st - 1) \<noteq> ''0000'') \<and>
     currentStart st = (if currentLength st = 0 then - 1 else int (n - currentLength st)) \<and>
     (bestLength st = 0 \<longrightarrow> bestStart st = - 1) \<and>
     (0 < bestLength st \<longrightarrow>
        0 \<le> bestStart st \<and> zero_run gs (nat (bestStart st)) (bestLength st) \<and>
        nat (bestStart st) + bestLength st \<le> n - currentLength st) \<and>
     (\<forall>s l. 0 < l \<and> zero_run gs s l \<and> s + l \<le> n - currentLength st \<longrightarrow>
        l \<le> bestLength st \<and> (l = bestLength st \<longrightarrow> nat (bestStart st) \<le> s))"

text \<open>The end of an iteration on a group that is not \<open>0000\<close>, and the step after the
  loop: the current run replaces the best one if it is longer.\<close>

definition absorb_current :: "zero_run_state \<Rightarrow> zero_run_state" where
  "absorb_current st =
     (if currentLength st > bestLength st
      then st \<lparr> bestLength := currentLength st, bestStart := currentStart st \<rparr>
      else st)"

text \<open>The state in which the search loop starts.\<close>

definition zero_run_init :: zero_run_state where
  "zero_run_init = \<lparr> bestStart = - 1, bestLength = 0, currentStart = - 1, currentLength = 0 \<rparr>"

text \<open>The characters of an address text: hexadecimal digits and colons.\<close>

definition addr_chars :: "string \<Rightarrow> bool" where
  "addr_chars s \<longleftrightarrow> list_all (\<lambda>c. is_hex c \<or> c = CHR '':'') s"

text \<open>Compression after expansion; an address that does not expand is an error.\<close>

definition compress_after_expand :: "string \<Rightarrow> error + string" where
  "compress_after_expand t =
     (case expandAddress t of Inl e \<Rightarrow> Inl e | Inr e \<Rightarrow> Inr (compressAddress e))"

text \<open>Two expanded addresses, for concrete runs.\<close>

definition example_groups :: "string list" where
  "example_groups = [''2001'', ''0db8'', ''0000'', ''0000'', ''0001'', ''0000'', ''0000'', ''0001'']"

definition example_groups_no_run :: "string list" where
  "example_groups_no_run = [''2001'', ''0db8'', ''0000'', ''00a0'', ''0000'', ''0001'', ''0000'', ''0001'']"

text \<open>
  The invariant of a network range as the specification states it: the prefix length is
  within bounds, the base is an address with its low \<open>128 - prefixLength\<close> bits cleared,
  and the last address is \<open>base + 2^(128 - prefixLength) - 1\<close>.
\<close>

definition NetworkRange_invariant :: "checked_network \<Rightarrow> bool" where
  "NetworkRange_invariant n \<longleftrightarrow>
     0 \<le> prefix n \<and> prefix n \<le> 128 \<and>
     networkBigInt n mod 2 ^ nat (128 - prefix n) = 0 \<and>
     broadcastBigInt n = networkBigInt n + 2 ^ nat (128 - prefix n) - 1"

text \<open>The size of a range, and the size of the overlap of two ranges.\<close>

definition range_size :: "checked_network \<Rightarrow> int" where
  "range_size n = broadcastBigInt n - networkBigInt n + 1"

definition overlap_size :: "checked_network \<Rightarrow> checked_network \<Rightarrow> int" where
  "overlap_size n1 n2 =
     min (broadcastBigInt n1) (broadcastBigInt n2) - max (networkBigInt n1) (networkBigInt n2) + 1"

text \<open>One range contains the other.\<close>

definition one_contains_other :: "checked_network \<Rightarrow> checked_network \<Rightarrow> bool" where
  "one_contains_other n1 n2 \<longleftrightarrow>
     (networkBigInt n1 \<le> networkBigInt n2 \<and> broadcastBigInt n2 \<le> broadcastBigInt n1) \<or>
     (networkBigInt n2 \<le> networkBigInt n1 \<and> broadcastBigInt n1 \<le> broadcastBigInt n2)"



section \<open>CIDR texts and the suggestion as the specification words it\<close>

text \<open>A valid CIDR text: an address text that \<open>isValidFormat\<close> accepts, one slash, and a
  prefix length of one to three decimal digits that is at most 128.\<close>

definition valid_cidr :: "string \<Rightarrow> bool" where
  "valid_cidr c =
     (case split_char CHR ''/'' c of
        [a, d] \<Rightarrow> isValidFormat a \<and> 1 \<le> length d \<and> length d \<le> 3 \<and> list_all is_digit d \<and>
                  dec_value d \<le> 128
      | _ \<Rightarrow> False)"

text \<open>
  The suggestion on ranges, in the words of the specification, for a given prefix length:
  the increment is \<open>2^(128 - prefixLength)\<close>; the first candidate base is the base of the
  anchor plus the increment; if it exceeds \<open>2^128 - 1\<close>, the second is the base minus the
  increment, and there is no suggestion if that is below 0; the candidate block is
  checked against the anchor by the classifier, and there is no suggestion if they overlap.
\<close>

definition suggest_spec :: "int \<Rightarrow> checked_network \<Rightarrow> int option" where
  "suggest_spec prefixLength anchorRange =
     (let increment = 2 ^ nat (128 - prefixLength);
          first = networkBigInt anchorRange + increment;
          candidate =
            (if first > 2 ^ 128 - 1 then
               (let second = networkBigInt anchorRange - increment
                in if second < 0 then None else Some second)
             else Some first)
      in case candidate of
           None \<Rightarrow> None
         | Some candidateBase \<Rightarrow>
             if hasOverlap (analyzeOverlap (range_of candidateBase (candidateBase + increment - 1))
                              anchorRange)
             then None else Some candidateBase)"

text \<open>The text of a suggested block.\<close>

definition suggestion_text :: "int \<Rightarrow> int \<Rightarrow> string" where
  "suggestion_text prefixLength candidateBase =
     compressAddress (bigIntToIPv6 candidateBase) @ ''/'' @ bigint_toString prefixLength"

text \<open>An anchor and a conflicting block inside it, for concrete suggestions.\<close>

definition example_anchor :: string where
  "example_anchor = ''2001:db8::/32''"

definition example_conflicting :: string where
  "example_conflicting = ''2001:db8:1::/48''"

section \<open>Properties of the classifier\<close>

lemma hasOverlap_analyzeOverlap:
  "hasOverlap (analyzeOverlap n1 n2) \<longleftrightarrow>
     (networkBigInt n1 \<le> networkBigInt n2 \<and> broadcastBigInt n1 \<ge> networkBigInt n2) \<or>
     (networkBigInt n2 \<le> networkBigInt n1 \<and> broadcastBigInt n2 \<ge> networkBigInt n1)"
  by (simp add: analyzeOverlap_def analyzeNoOverlap_def analyzeOverlapDetails_def Let_def
      split: prod.splits)

text \<open>
  C1.  For two valid ranges \<open>[a0,a1]\<close> and \<open>[b0,b1]\<close> the classifier reports
  \<open>hasOverlap = true\<close> exactly when \<open>a0 \<le> b1\<close> and \<open>b0 \<le> a1\<close>.
\<close>

theorem analyzeOverlap_hasOverlap_iff:
  assumes "valid_range n1" and "valid_range n2"
  shows "hasOverlap (analyzeOverlap n1 n2) \<longleftrightarrow>
           networkBigInt n1 \<le> broadcastBigInt n2 \<and> networkBigInt n2 \<le> broadcastBigInt n1"
  using assms unfolding hasOverlap_analyzeOverlap valid_range_def by linarith

theorem analyzeOverlap_hasOverlap_iff_witness:
  "valid_range (range_of 0 10) \<and> valid_range (range_of 5 20) \<and>
   hasOverlap (analyzeOverlap (range_of 0 10) (range_of 5 20)) \<and>
   networkBigInt (range_of 0 10) \<le> broadcastBigInt (range_of 5 20) \<and>
   networkBigInt (range_of 5 20) \<le> broadcastBigInt (range_of 0 10)"
proof -
  have v1: "valid_range (range_of 0 10)" and v2: "valid_range (range_of 5 20)"
    by (simp_all add: valid_range_def range_of_def)
  have ends: "networkBigInt (range_of 0 10) \<le> broadcastBigInt (range_of 5 20) \<and>
      networkBigInt (range_of 5 20) \<le> broadcastBigInt (range_of 0 10)"
    by (simp add: range_of_def)
  show ?thesis
    using analyzeOverlap_hasOverlap_iff [OF v1 v2] v1 v2 ends by blast
qed

lemma analyzeOverlap_overlapping:
  assumes "hasOverlap (analyzeOverlap n1 n2)"
  shows "analyzeOverlap n1 n2 =
      analyzeOverlapDetails n1 n2 (networkBigInt n1) (broadcastBigInt n1)
        (networkBigInt n2) (broadcastBigInt n2)"
proof (cases "(networkBigInt n1 \<le> networkBigInt n2 \<and> broadcastBigInt n1 \<ge> networkBigInt n2) \<or>
     (networkBigInt n2 \<le> networkBigInt n1 \<and> broadcastBigInt n2 \<ge> networkBigInt n1)")
  case True
  then show ?thesis unfolding analyzeOverlap_def Let_def by (simp only: not_True_eq_False if_False)
next
  case False
  with assms show ?thesis unfolding hasOverlap_analyzeOverlap by blast
qed

text \<open>
  C2.  For an overlapping pair of valid ranges the classifier takes the first matching case
  in priority order: IDENTICAL with severity CRITICAL when \<open>a0 = b0\<close> and \<open>a1 = b1\<close>;
  else FIRST_CONTAINS_SECOND with severity HIGH when \<open>a0 \<le> b0\<close> and \<open>a1 \<ge> b1\<close>;
  else SECOND_CONTAINS_FIRST with severity HIGH when \<open>b0 \<le> a0\<close> and \<open>b1 \<ge> a1\<close>;
  otherwise PARTIAL with severity MEDIUM.
\<close>

theorem analyzeOverlap_priority:
  assumes "valid_range n1" and "valid_range n2"
    and "networkBigInt n1 \<le> broadcastBigInt n2" and "networkBigInt n2 \<le> broadcastBigInt n1"
  shows "(type (analyzeOverlap n1 n2), severity (analyzeOverlap n1 n2)) =
     (if networkBigInt n1 = networkBigInt n2 \<and> broadcastBigInt n1 = broadcastBigInt n2
        then (IDENTICAL, CRITICAL)
      else if networkBigInt n1 \<le> networkBigInt n2 \<and> broadcastBigInt n1 \<ge> broadcastBigInt n2
        then (FIRST_CONTAINS_SECOND, HIGH)
      else if networkBigInt n2 \<le> networkBigInt n1 \<and> broadcastBigInt n2 \<ge> broadcastBigInt n1
        then (SECOND_CONTAINS_FIRST, HIGH)
      else (PARTIAL, MEDIUM))"
proof -
  have "hasOverlap (analyzeOverlap n1 n2)"
    using assms unfolding hasOverlap_analyzeOverlap valid_range_def by linarith
  then have "analyzeOverlap n1 n2 =
      analyzeOverlapDetails n1 n2 (networkBigInt n1) (broadcastBigInt n1)
        (networkBigInt n2) (broadcastBigInt n2)"
    by (rule analyzeOverlap_overlapping)
  then show ?thesis
    by (simp add: analyzeOverlapDetails_def Let_def)
qed

theorem analyzeOverlap_priority_witness:
  "valid_range (range_of 0 10) \<and> valid_range (range_of 5 20) \<and>
   type (analyzeOverlap (range_of 0 10) (range_of 5 20)) = PARTIAL \<and>
   severity (analyzeOverlap (range_of 0 10) (range_of 5 20)) = MEDIUM"
proof -
  have v1: "valid_range (range_of 0 10)" and v2: "valid_range (range_of 5 20)"
    by (simp_all add: valid_range_def range_of_def)
  have e1: "networkBigInt (range_of 0 10) \<le> broadcastBigInt (range_of 5 20)"
    and e2: "networkBigInt (range_of 5 20) \<le> broadcastBigInt (range_of 0 10)"
    by (simp_all add: range_of_def)
  from analyzeOverlap_priority [OF v1 v2 e1 e2]
  have "(type (analyzeOverlap (range_of 0 10) (range_of 5 20)),
         severity (analyzeOverlap (range_of 0 10) (range_of 5 20))) = (PARTIAL, MEDIUM)"
    by (simp add: range_of_def)
  with v1 v2 show ?thesis by simp
qed

lemma analyzeOverlap_type_FCS:
  "type (analyzeOverlap n1 n2) = FIRST_CONTAINS_SECOND \<longleftrightarrow>
     networkBigInt n1 \<le> networkBigInt n2 \<and> broadcastBigInt n2 \<le> broadcastBigInt n1 \<and>
     networkBigInt n2 \<le> broadcastBigInt n1 \<and>
     \<not> (networkBigInt n1 = networkBigInt n2 \<and> broadcastBigInt n1 = broadcastBigInt n2)"
  by (auto simp add: analyzeOverlap_def analyzeNoOverlap_def analyzeOverlapDetails_def Let_def)

lemma analyzeOverlap_type_SCF:
  "type (analyzeOverlap n1 n2) = SECOND_CONTAINS_FIRST \<longleftrightarrow>
     networkBigInt n2 \<le> networkBigInt n1 \<and> broadcastBigInt n1 \<le> broadcastBigInt n2 \<and>
     networkBigInt n1 \<le> broadcastBigInt n2 \<and>
     \<not> (networkBigInt n1 \<le> networkBigInt n2 \<and> broadcastBigInt n2 \<le> broadcastBigInt n1)"
  by (auto simp add: analyzeOverlap_def analyzeNoOverlap_def analyzeOverlapDetails_def Let_def)

lemma reported_overlapSize_overlapping:
  assumes "hasOverlap (analyzeOverlap n1 n2)"
  shows "reported_overlapSize (analyzeOverlap n1 n2) =
     Some (bigint_toString (min (broadcastBigInt n1) (broadcastBigInt n2)
             - max (networkBigInt n1) (networkBigInt n2) + 1))"
proof -
  have eq: "analyzeOverlap n1 n2 =
      analyzeOverlapDetails n1 n2 (networkBigInt n1) (broadcastBigInt n1)
        (networkBigInt n2) (broadcastBigInt n2)"
    using assms by (rule analyzeOverlap_overlapping)
  have mx: "(if networkBigInt n1 > networkBigInt n2 then networkBigInt n1 else networkBigInt n2)
      = max (networkBigInt n1) (networkBigInt n2)"
    and mn: "(if broadcastBigInt n1 < broadcastBigInt n2 then broadcastBigInt n1
       else broadcastBigInt n2) = min (broadcastBigInt n1) (broadcastBigInt n2)"
    by (simp_all add: max_def min_def)
  show ?thesis
    unfolding eq reported_overlapSize_def analyzeOverlapDetails_def Let_def mx mn
    by (simp split: prod.splits)
qed

text \<open>
  C7.  For valid ranges A and B, \<open>classify(A,B)\<close> has type FIRST_CONTAINS_SECOND exactly
  when \<open>classify(B,A)\<close> has type SECOND_CONTAINS_FIRST, and then both results report the
  same \<open>overlapSize\<close>.
\<close>

theorem containment_symmetry:
  assumes "valid_range A" and "valid_range B"
  shows "(type (analyzeOverlap A B) = FIRST_CONTAINS_SECOND \<longleftrightarrow>
            type (analyzeOverlap B A) = SECOND_CONTAINS_FIRST) \<and>
         (type (analyzeOverlap A B) = FIRST_CONTAINS_SECOND \<longrightarrow>
            reported_overlapSize (analyzeOverlap A B) \<noteq> None \<and>
            reported_overlapSize (analyzeOverlap A B) = reported_overlapSize (analyzeOverlap B A))"
proof (intro conjI impI)
  show iff: "type (analyzeOverlap A B) = FIRST_CONTAINS_SECOND \<longleftrightarrow>
      type (analyzeOverlap B A) = SECOND_CONTAINS_FIRST"
    using assms unfolding analyzeOverlap_type_FCS analyzeOverlap_type_SCF valid_range_def
    by linarith
  assume fcs: "type (analyzeOverlap A B) = FIRST_CONTAINS_SECOND"
  then have ab: "hasOverlap (analyzeOverlap A B)"
    unfolding analyzeOverlap_type_FCS hasOverlap_analyzeOverlap by linarith
  from fcs iff have "type (analyzeOverlap B A) = SECOND_CONTAINS_FIRST" by simp
  then have ba: "hasOverlap (analyzeOverlap B A)"
    unfolding analyzeOverlap_type_SCF hasOverlap_analyzeOverlap using assms(1)
    unfolding valid_range_def by linarith
  show "reported_overlapSize (analyzeOverlap A B) \<noteq> None"
    by (simp add: reported_overlapSize_overlapping [OF ab])
  show "reported_overlapSize (analyzeOverlap A B) = reported_overlapSize (analyzeOverlap B A)"
    by (simp add: reported_overlapSize_overlapping [OF ab] reported_overlapSize_overlapping [OF ba]
        min.commute max.commute)
qed

theorem containment_symmetry_witness:
  "valid_range (range_of 0 20) \<and> valid_range (range_of 5 10) \<and>
   type (analyzeOverlap (range_of 0 20) (range_of 5 10)) = FIRST_CONTAINS_SECOND \<and>
   type (analyzeOverlap (range_of 5 10) (range_of 0 20)) = SECOND_CONTAINS_FIRST \<and>
   reported_overlapSize (analyzeOverlap (range_of 0 20) (range_of 5 10)) =
     reported_overlapSize (analyzeOverlap (range_of 5 10) (range_of 0 20))"
proof -
  have v1: "valid_range (range_of 0 20)" and v2: "valid_range (range_of 5 10)"
    by (simp_all add: valid_range_def range_of_def)
  have t: "type (analyzeOverlap (range_of 0 20) (range_of 5 10)) = FIRST_CONTAINS_SECOND"
    by (simp add: analyzeOverlap_type_FCS range_of_def)
  show ?thesis
    using containment_symmetry [OF v1 v2] v1 v2 t by simp
qed

subsection \<open>The overlap percentage\<close>

lemma calculateOverlapPercentage_valid:
  assumes "valid_range n1" and "valid_range n2" and "0 \<le> ov"
    and "ov \<le> min (broadcastBigInt n1 - networkBigInt n1 + 1) (broadcastBigInt n2 - networkBigInt n2 + 1)"
  shows "calculateOverlapPercentage n1 n2 ov =
     Some (ov * 100 div min (broadcastBigInt n1 - networkBigInt n1 + 1)
                            (broadcastBigInt n2 - networkBigInt n2 + 1))"
proof -
  let ?m = "min (broadcastBigInt n1 - networkBigInt n1 + 1) (broadcastBigInt n2 - networkBigInt n2 + 1)"
  have m: "0 < ?m" using assms(1,2) unfolding valid_range_def by simp
  have sm: "(if broadcastBigInt n1 - networkBigInt n1 + 1 < broadcastBigInt n2 - networkBigInt n2 + 1
     then broadcastBigInt n1 - networkBigInt n1 + 1 else broadcastBigInt n2 - networkBigInt n2 + 1) = ?m"
    by (simp add: min_def)
  have q0: "0 \<le> ov * 100 div ?m" using assms(3) m by (simp add: pos_imp_zdiv_nonneg_iff)
  have "ov * 100 \<le> ?m * 100" using assms(4) by simp
  then have "ov * 100 div ?m \<le> (?m * 100) div ?m" by (rule zdiv_mono1) (rule m)
  then have q1: "ov * 100 div ?m \<le> 100" using m by simp
  have bd: "bigint_div (ov * 100) ?m = ov * 100 div ?m"
    using m assms(3) by (cases "ov = 0") (simp_all add: bigint_div_def sgn_if)
  have w: "\<bar>ov * 100 div ?m\<bar> * 100 \<le> 2 ^ 53" using q0 q1 by simp
  show ?thesis
    unfolding calculateOverlapPercentage_def Let_def sm bd using m w by simp
qed

lemma reported_percentage_overlapping:
  assumes "valid_range n1" and "valid_range n2"
    and "networkBigInt n1 \<le> broadcastBigInt n2" and "networkBigInt n2 \<le> broadcastBigInt n1"
  shows "reported_percentage (analyzeOverlap n1 n2) =
     Some ((min (broadcastBigInt n1) (broadcastBigInt n2) - max (networkBigInt n1) (networkBigInt n2) + 1)
             * 100 div min (broadcastBigInt n1 - networkBigInt n1 + 1)
                           (broadcastBigInt n2 - networkBigInt n2 + 1))"
proof -
  have "hasOverlap (analyzeOverlap n1 n2)"
    using assms unfolding hasOverlap_analyzeOverlap valid_range_def by linarith
  then have eq: "analyzeOverlap n1 n2 =
      analyzeOverlapDetails n1 n2 (networkBigInt n1) (broadcastBigInt n1)
        (networkBigInt n2) (broadcastBigInt n2)"
    by (rule analyzeOverlap_overlapping)
  have mx: "(if networkBigInt n1 > networkBigInt n2 then networkBigInt n1 else networkBigInt n2)
      = max (networkBigInt n1) (networkBigInt n2)"
    and mn: "(if broadcastBigInt n1 < broadcastBigInt n2 then broadcastBigInt n1
       else broadcastBigInt n2) = min (broadcastBigInt n1) (broadcastBigInt n2)"
    by (simp_all add: max_def min_def)
  let ?ov = "min (broadcastBigInt n1) (broadcastBigInt n2) - max (networkBigInt n1) (networkBigInt n2) + 1"
  have o0: "0 \<le> ?ov" using assms unfolding valid_range_def by (simp add: min_def max_def)
  have o1: "?ov \<le> min (broadcastBigInt n1 - networkBigInt n1 + 1) (broadcastBigInt n2 - networkBigInt n2 + 1)"
    using assms unfolding valid_range_def by (simp add: min_def max_def)
  have "reported_percentage (analyzeOverlap n1 n2) = calculateOverlapPercentage n1 n2 ?ov"
    unfolding eq reported_percentage_def analyzeOverlapDetails_def Let_def mx mn
    by (simp split: prod.splits)
  then show ?thesis
    by (simp only: calculateOverlapPercentage_valid [OF assms(1,2) o0 o1])
qed

lemma percentage_bounds:
  fixes ov m :: int
  assumes "0 < ov" and "ov \<le> m"
  shows "0 \<le> ov * 100 div m" and "ov * 100 div m \<le> 100" and "ov * 100 div m = 100 \<longleftrightarrow> ov = m"
proof -
  have m: "0 < m" using assms by simp
  show "0 \<le> ov * 100 div m" using assms m by (simp add: pos_imp_zdiv_nonneg_iff)
  have "ov * 100 \<le> m * 100" using assms(2) by simp
  then have "ov * 100 div m \<le> (m * 100) div m" by (rule zdiv_mono1) (rule m)
  then show "ov * 100 div m \<le> 100" using m by simp
  show "ov * 100 div m = 100 \<longleftrightarrow> ov = m"
  proof
    assume "ov * 100 div m = 100"
    moreover have "m * (ov * 100 div m) + ov * 100 mod m = ov * 100" by (rule mult_div_mod_eq)
    moreover have "0 \<le> ov * 100 mod m" using m by simp
    ultimately have "100 * m \<le> ov * 100" by simp
    then show "ov = m" using assms(2) by simp
  next
    assume "ov = m" then show "ov * 100 div m = 100" using m by simp
  qed
qed

lemma overlapSize_eq_smaller_iff:
  assumes "valid_range n1" and "valid_range n2"
    and "networkBigInt n1 \<le> broadcastBigInt n2" and "networkBigInt n2 \<le> broadcastBigInt n1"
  shows "min (broadcastBigInt n1) (broadcastBigInt n2) - max (networkBigInt n1) (networkBigInt n2) + 1
       = min (broadcastBigInt n1 - networkBigInt n1 + 1) (broadcastBigInt n2 - networkBigInt n2 + 1)
     \<longleftrightarrow> (networkBigInt n1 \<le> networkBigInt n2 \<and> broadcastBigInt n2 \<le> broadcastBigInt n1) \<or>
         (networkBigInt n2 \<le> networkBigInt n1 \<and> broadcastBigInt n1 \<le> broadcastBigInt n2)"
  using assms unfolding valid_range_def min_def max_def by (simp split: if_splits) linarith

text \<open>
  What the code does guarantee for an overlapping pair of valid ranges: the reported
  percentage is the integer quotient of \<open>overlapSize * 100\<close> by the smaller size, it lies
  between 0 and 100, and it is 100 exactly when one range contains the other.
\<close>

lemma reported_percentage_bounds:
  assumes "valid_range n1" and "valid_range n2"
    and "networkBigInt n1 \<le> broadcastBigInt n2" and "networkBigInt n2 \<le> broadcastBigInt n1"
  shows "\<exists>q. reported_percentage (analyzeOverlap n1 n2) = Some q \<and> 0 \<le> q \<and> q \<le> 100 \<and>
     (q = 100 \<longleftrightarrow>
        (networkBigInt n1 \<le> networkBigInt n2 \<and> broadcastBigInt n2 \<le> broadcastBigInt n1) \<or>
        (networkBigInt n2 \<le> networkBigInt n1 \<and> broadcastBigInt n1 \<le> broadcastBigInt n2))"
proof -
  let ?ov = "min (broadcastBigInt n1) (broadcastBigInt n2) - max (networkBigInt n1) (networkBigInt n2) + 1"
  let ?m = "min (broadcastBigInt n1 - networkBigInt n1 + 1) (broadcastBigInt n2 - networkBigInt n2 + 1)"
  have o0: "0 < ?ov" using assms unfolding valid_range_def by (simp add: min_def max_def)
  have o1: "?ov \<le> ?m" using assms unfolding valid_range_def by (simp add: min_def max_def)
  note b = percentage_bounds [OF o0 o1]
  show ?thesis
    unfolding reported_percentage_overlapping [OF assms]
    using b overlapSize_eq_smaller_iff [OF assms] by simp
qed

text \<open>
  The division is a division of BigInts, which drops the decimals before \<open>Math.round\<close>
  sees them.  This shows on ranges that are not blocks of a prefix, such as \<open>[0,2]\<close> and
  \<open>[2,4]\<close> (overlap 1, sizes 3 and 3); the engine builds no such range.
\<close>

lemma percentage_of_unaligned_ranges:
  "valid_range (range_of 0 2) \<and> valid_range (range_of 2 4) \<and>
   hasOverlap (analyzeOverlap (range_of 0 2) (range_of 2 4)) \<and>
   reported_overlapSize (analyzeOverlap (range_of 0 2) (range_of 2 4)) = Some ''1'' \<and>
   reported_percentage (analyzeOverlap (range_of 0 2) (range_of 2 4)) = Some 33 \<and>
   percentageOfSmaller_spec 1 3 3 = 3333 / 100"
  by code_simp

subsection \<open>Ranges of networks\<close>

text \<open>Two aligned blocks that meet are nested: the smaller one lies in the larger one.\<close>

lemma aligned_blocks_nested:
  fixes a b :: int
  assumes jk: "j \<le> k" and a: "a mod 2 ^ j = 0" and b: "b mod 2 ^ k = 0"
    and ov: "a \<le> b + 2 ^ k - 1" "b \<le> a + 2 ^ j - 1"
  shows "b \<le> a \<and> a + 2 ^ j \<le> b + 2 ^ k"
proof -
  let ?d = "2 ^ j :: int"
  have d: "0 < ?d" by simp
  from a obtain x where x: "a = ?d * x" by (auto simp: mod_eq_0_iff_dvd)
  from b obtain y where y: "b = 2 ^ k * y" by (auto simp: mod_eq_0_iff_dvd)
  have k: "(2 ^ k :: int) = ?d * 2 ^ (k - j)"
    using jk by (simp add: power_add [symmetric])
  have bw: "b = ?d * (2 ^ (k - j) * y)" unfolding y k by simp
  have bz: "b + 2 ^ k = ?d * (2 ^ (k - j) * y + 2 ^ (k - j))"
    unfolding y k by (simp add: algebra_simps)
  from ov(2) have "?d * (2 ^ (k - j) * y) < ?d * (x + 1)"
    unfolding bw x by (simp add: algebra_simps)
  then have "2 ^ (k - j) * y < x + 1" using d by (simp only: mult_less_cancel_left_pos)
  then have "?d * (2 ^ (k - j) * y) \<le> ?d * x" using d by simp
  then have 1: "b \<le> a" unfolding bw x .
  from ov(1) have "a < b + 2 ^ k" by simp
  then have "?d * x < ?d * (2 ^ (k - j) * y + 2 ^ (k - j))" unfolding bz x .
  then have "x < 2 ^ (k - j) * y + 2 ^ (k - j)" using d by (simp only: mult_less_cancel_left_pos)
  then have "x + 1 \<le> 2 ^ (k - j) * y + 2 ^ (k - j)" by simp
  then have "?d * (x + 1) \<le> ?d * (2 ^ (k - j) * y + 2 ^ (k - j))"
    using d by (simp only: mult_le_cancel_left_pos)
  then have 2: "a + 2 ^ j \<le> b + 2 ^ k" unfolding bz x by (simp add: algebra_simps)
  from 1 2 show ?thesis ..
qed

lemma NetworkRange_valid_range: "NetworkRange_invariant n \<Longrightarrow> valid_range n"
  by (simp add: NetworkRange_invariant_def valid_range_def)

lemma NetworkRanges_nested:
  assumes n1: "NetworkRange_invariant n1" and n2: "NetworkRange_invariant n2"
    and ov: "hasOverlap (analyzeOverlap n1 n2)"
  shows "one_contains_other n1 n2"
proof -
  let ?k1 = "nat (128 - prefix n1)" and ?k2 = "nat (128 - prefix n2)"
  have v1: "valid_range n1" and v2: "valid_range n2"
    using n1 n2 by (simp_all add: NetworkRange_valid_range)
  from ov have o: "networkBigInt n1 \<le> broadcastBigInt n2" "networkBigInt n2 \<le> broadcastBigInt n1"
    using v1 v2 unfolding hasOverlap_analyzeOverlap valid_range_def by linarith+
  have a1: "networkBigInt n1 mod 2 ^ ?k1 = 0"
    and b1: "broadcastBigInt n1 = networkBigInt n1 + 2 ^ ?k1 - 1"
    using n1 by (simp_all add: NetworkRange_invariant_def)
  have a2: "networkBigInt n2 mod 2 ^ ?k2 = 0"
    and b2: "broadcastBigInt n2 = networkBigInt n2 + 2 ^ ?k2 - 1"
    using n2 by (simp_all add: NetworkRange_invariant_def)
  show ?thesis
  proof (cases "?k1 \<le> ?k2")
    case True
    from aligned_blocks_nested [OF True a1 a2] o
    have "networkBigInt n2 \<le> networkBigInt n1 \<and>
        networkBigInt n1 + 2 ^ ?k1 \<le> networkBigInt n2 + 2 ^ ?k2"
      unfolding b1 b2 by simp
    then show ?thesis unfolding one_contains_other_def b1 b2 by simp
  next
    case False
    then have le: "?k2 \<le> ?k1" by simp
    from aligned_blocks_nested [OF le a2 a1] o
    have "networkBigInt n1 \<le> networkBigInt n2 \<and>
        networkBigInt n2 + 2 ^ ?k2 \<le> networkBigInt n1 + 2 ^ ?k1"
      unfolding b1 b2 by simp
    then show ?thesis unfolding one_contains_other_def b1 b2 by simp
  qed
qed

text \<open>The percentage of the specification is 100 when the overlap is the smaller range.\<close>

lemma percentageOfSmaller_spec_full:
  assumes "0 < min sizeA sizeB"
  shows "percentageOfSmaller_spec (min sizeA sizeB) sizeA sizeB = 100"
proof -
  define m where "m = min sizeA sizeB"
  have "0 < m" using assms unfolding m_def .
  then have m: "m \<noteq> 0" by simp
  have "(of_int (m * 100) :: rat) / of_int m = 100"
    using m by simp
  then have "percentageOfSmaller_spec m sizeA sizeB = of_int (round (100 * 100 :: rat)) / 100"
    unfolding percentageOfSmaller_spec_def m_def [symmetric] by (simp only:)
  also have "(100 * 100 :: rat) = of_int 10000" by simp
  also have "of_int (round (of_int 10000 :: rat)) / (100 :: rat) = 100"
    by (simp only: round_of_int; simp)
  finally show ?thesis unfolding m_def .
qed

lemma reported_percentage_NetworkRanges:
  assumes n1: "NetworkRange_invariant n1" and n2: "NetworkRange_invariant n2"
    and ov: "hasOverlap (analyzeOverlap n1 n2)"
  shows "reported_percentage (analyzeOverlap n1 n2) = Some 100"
    and "reported_overlapSize (analyzeOverlap n1 n2) = Some (bigint_toString (overlap_size n1 n2))"
    and "percentageOfSmaller_spec (overlap_size n1 n2) (range_size n1) (range_size n2) = 100"
proof -
  have v1: "valid_range n1" and v2: "valid_range n2"
    using n1 n2 by (simp_all add: NetworkRange_valid_range)
  from ov have o: "networkBigInt n1 \<le> broadcastBigInt n2" "networkBigInt n2 \<le> broadcastBigInt n1"
    using v1 v2 unfolding hasOverlap_analyzeOverlap valid_range_def by linarith+
  have c: "one_contains_other n1 n2" using n1 n2 ov by (rule NetworkRanges_nested)
  from reported_percentage_bounds [OF v1 v2 o] c
  show "reported_percentage (analyzeOverlap n1 n2) = Some 100"
    unfolding one_contains_other_def by auto
  show "reported_overlapSize (analyzeOverlap n1 n2) = Some (bigint_toString (overlap_size n1 n2))"
    unfolding overlap_size_def using reported_overlapSize_overlapping [OF ov] by simp
  have eq: "overlap_size n1 n2 = min (range_size n1) (range_size n2)"
    using c overlapSize_eq_smaller_iff [OF v1 v2 o]
    unfolding one_contains_other_def overlap_size_def range_size_def by simp
  have "0 < min (range_size n1) (range_size n2)"
    using v1 v2 unfolding valid_range_def range_size_def by simp
  then show "percentageOfSmaller_spec (overlap_size n1 n2) (range_size n1) (range_size n2) = 100"
    unfolding eq by (rule percentageOfSmaller_spec_full)
qed

text \<open>
  The ranges that the engine computes satisfy the invariant: \<open>analyzeOverlap\<close> is called
  with two results of \<open>validateAndGetNetworkInfo\<close>.
\<close>

lemma calculateNetworkMask_Inr:
  assumes "calculateNetworkMask q = Inr m"
  shows "\<exists>p. q = Some p \<and> 0 \<le> p \<and> p \<le> 128 \<and>
    (\<exists>c. m = push_bit (nat (128 - p)) c)"
proof (cases q)
  case None
  with assms show ?thesis by (simp add: calculateNetworkMask_def)
next
  case (Some p)
  with assms have b: "0 \<le> p" "p \<le> 128"
    by (auto simp add: calculateNetworkMask_def split: if_splits)
  have "\<exists>c. m = push_bit (nat (128 - p)) c"
  proof (cases "p = 0")
    case True
    with assms Some have "m = push_bit (nat (128 - p)) 0" by (simp add: calculateNetworkMask_def)
    then show ?thesis ..
  next
    case False
    with assms Some b have "m = push_bit (nat (128 - p)) (push_bit (nat p) 1 - 1)"
      by (simp add: calculateNetworkMask_def)
    then show ?thesis ..
  qed
  with Some b show ?thesis by simp
qed

lemma and_push_bit_aligned:
  fixes ip c :: int
  shows "(ip AND push_bit k c) mod 2 ^ k = 0"
proof -
  have "take_bit k (ip AND push_bit k c) = take_bit k ip AND take_bit k (push_bit k c)"
    by (rule take_bit_and)
  also have "take_bit k (push_bit k c) = 0" by (simp add: take_bit_push_bit)
  finally show ?thesis by (simp add: take_bit_eq_mod)
qed

lemma getNetworkInfo_NetworkRange:
  assumes "getNetworkInfo c = Inr n"
  shows "0 \<le> prefix n \<and> prefix n \<le> 128 \<and>
     networkBigInt n mod 2 ^ nat (128 - prefix n) = 0 \<and>
     broadcastBigInt n = networkBigInt n + 2 ^ nat (128 - prefix n) - 1"
proof -
  from assms obtain v where v: "validateIPv6 c = Inr v"
    by (cases "validateIPv6 c") (simp_all add: getNetworkInfo_def)
  let ?parts = "split_char CHR ''/'' c"
  let ?q = "parseInt10_opt (array_get ?parts 1)"
  from assms v obtain ip where ip: "ipv6ToBigInt (?parts ! 0) = Inr ip"
    by (cases "ipv6ToBigInt (?parts ! 0)") (simp_all add: getNetworkInfo_def Let_def)
  from assms v ip obtain m where m: "calculateNetworkMask ?q = Inr m"
    by (cases "calculateNetworkMask ?q") (simp_all add: getNetworkInfo_def Let_def)
  from calculateNetworkMask_Inr [OF m] obtain p c' where
    p: "?q = Some p" "0 \<le> p" "p \<le> 128" and mc: "m = push_bit (nat (128 - p)) c'" by blast
  from assms v ip m p have n: "prefix n = p" "networkBigInt n = ip AND m"
    "broadcastBigInt n = (ip AND m) + push_bit (nat (128 - p)) 1 - 1"
    by (auto simp add: getNetworkInfo_def Let_def)
  have "(ip AND m) mod 2 ^ nat (128 - p) = 0" unfolding mc by (rule and_push_bit_aligned)
  with n p show ?thesis by (simp add: push_bit_eq_mult)
qed

lemma validateAndGetNetworkInfo_NetworkRange:
  assumes "validateAndGetNetworkInfo c = Inr n"
  shows "NetworkRange_invariant n"
proof -
  from assms obtain n' where n': "getNetworkInfo c = Inr n'"
    and n: "n = network_info.extend n' \<lparr> original = c \<rparr>"
    by (auto simp add: validateAndGetNetworkInfo_def split: if_splits sum.splits)
  have "prefix n = prefix n'" "networkBigInt n = networkBigInt n'"
    "broadcastBigInt n = broadcastBigInt n'"
    unfolding n by (simp_all add: network_info.defs)
  with getNetworkInfo_NetworkRange [OF n'] show ?thesis
    unfolding NetworkRange_invariant_def by simp
qed

text \<open>So every check of two CIDR texts that finds an overlap reports 100 percent.\<close>

lemma checkOverlapAdvanced_percentage:
  assumes "checkOverlapAdvanced c1 c2 = Inr r" and "r_hasOverlap r"
  shows "NetworkRange_invariant (network1 r) \<and> NetworkRange_invariant (network2 r) \<and>
    analysis r = analyzeOverlap (network1 r) (network2 r) \<and>
    reported_percentage (analysis r) = Some 100"
proof -
  from assms(1) obtain n1 n2 where n1: "validateAndGetNetworkInfo c1 = Inr n1"
    and n2: "validateAndGetNetworkInfo c2 = Inr n2"
    and r: "network1 r = n1" "network2 r = n2" "analysis r = analyzeOverlap n1 n2"
      "r_hasOverlap r = hasOverlap (analyzeOverlap n1 n2)"
    by (auto simp add: checkOverlapAdvanced_def Let_def split: if_splits sum.splits)
  note i1 = validateAndGetNetworkInfo_NetworkRange [OF n1]
    and i2 = validateAndGetNetworkInfo_NetworkRange [OF n2]
  from assms(2) r have "hasOverlap (analyzeOverlap n1 n2)" by simp
  from reported_percentage_NetworkRanges(1) [OF i1 i2 this] i1 i2 r show ?thesis by simp
qed



section \<open>Properties of the result caches\<close>

lemma fold_map_delete:
  "fold (\<lambda>key m'. map_delete m' key) ks m = filter (\<lambda>kv. fst kv \<notin> set ks) m"
  by (induction ks arbitrary: m) (auto simp: map_delete_def intro: filter_cong)

lemma fold_map_delete_fst:
  "fold (\<lambda>kv m'. map_delete m' (fst kv)) rs m = filter (\<lambda>kv. fst kv \<notin> fst ` set rs) m"
  by (induction rs arbitrary: m) (auto simp: map_delete_def intro: filter_cong)

lemma distinct_fst_mem:
  assumes "distinct (map fst m)" and "kv \<in> set m" and "kv' \<in> set m" and "fst kv = fst kv'"
  shows "kv = kv'"
  using assms by (metis distinct_map inj_onD)

lemma cleanExpiredCache_purge:
  assumes "distinct (map fst m)"
  shows "cleanExpiredCache cfg m now = purge_expired cfg m now"
  unfolding cleanExpiredCache_def Let_def fold_map_delete purge_expired_def
proof (rule filter_cong [OF refl])
  fix kv assume kv: "kv \<in> set m"
  show "(fst kv \<notin> set (map fst (filter (\<lambda>kv. CACHE_TTL cfg < now - timestamp (snd kv)) m)))
      = (\<not> CACHE_TTL cfg < now - timestamp (snd kv))"
    using kv distinct_fst_mem [OF assms kv] by auto
qed

lemma distinct_purge: "distinct (map fst m) \<Longrightarrow> distinct (map fst (purge_expired cfg m now))"
  unfolding purge_expired_def by (rule distinct_map_filter)

lemma evict_oldest:
  fixes m :: "'v js_map"
  assumes d: "distinct (map fst m)" and n: "n \<le> length m"
  shows "\<exists>removed.
      fold (\<lambda>kv m''. map_delete m'' (fst kv)) (take n (sort_key (\<lambda>kv. timestamp (snd kv)) m)) m
        = filter (\<lambda>kv. kv \<notin> set removed) m \<and>
      set removed \<subseteq> set m \<and> distinct removed \<and> length removed = n \<and>
      (\<forall>r \<in> set removed. \<forall>s \<in> set m - set removed. timestamp (snd r) \<le> timestamp (snd s))"
proof -
  let ?s = "sort_key (\<lambda>kv. timestamp (snd kv)) m"
  let ?r = "take n ?s"
  have dm: "distinct m" using d by (simp add: distinct_map)
  have sub: "set ?r \<subseteq> set m"
    using set_take_subset [of n ?s] by simp
  have dr: "distinct ?r" using dm by simp
  have lr: "length ?r = n" using n by simp
  have fo: "fold (\<lambda>kv m''. map_delete m'' (fst kv)) ?r m = filter (\<lambda>kv. kv \<notin> set ?r) m"
    unfolding fold_map_delete_fst
  proof (rule filter_cong [OF refl])
    fix kv assume kv: "kv \<in> set m"
    show "(fst kv \<notin> fst ` set ?r) = (kv \<notin> set ?r)"
    proof -
      have "kv \<in> set ?r" if "fst kv \<in> fst ` set ?r"
      proof -
        from that obtain r where r: "r \<in> set ?r" and e: "fst kv = fst r" by blast
        from r sub have "r \<in> set m" by blast
        then have "kv = r" using e by (rule distinct_fst_mem [OF d kv])
        with r show ?thesis by simp
      qed
      then show ?thesis by blast
    qed
  qed
  have srt: "sorted (map (\<lambda>kv. timestamp (snd kv)) (take n ?s @ drop n ?s))"
    by (simp add: sorted_sort_key)
  have "set ?s = set (take n ?s @ drop n ?s)" by simp
  then have un: "set m = set (take n ?s) \<union> set (drop n ?s)"
    by (simp only: set_sort set_append)
  have old: "\<forall>r \<in> set ?r. \<forall>s \<in> set m - set ?r. timestamp (snd r) \<le> timestamp (snd s)"
  proof (intro ballI)
    fix r s assume r: "r \<in> set ?r" and s: "s \<in> set m - set ?r"
    from s un have "s \<in> set (drop n ?s)" by blast
    with r srt show "timestamp (snd r) \<le> timestamp (snd s)"
      unfolding map_append sorted_append by simp
  qed
  from fo sub dr lr old show ?thesis by blast
qed

lemma map_delete_first:
  assumes "distinct (map fst ((k, e) # rest))"
  shows "map_delete ((k, e) # rest) k = rest"
proof -
  have "\<forall>kv \<in> set rest. fst kv \<noteq> k" using assms by auto
  then have "filter (\<lambda>kv. fst kv \<noteq> k) rest = rest" by (simp add: filter_id_conv)
  then show ?thesis by (simp add: map_delete_def)
qed

text \<open>
  C9 (as amended).  On a write to a cache that is at its capacity bound, the items older
  than the TTL are purged first.  If the cache is still at capacity, the address-utility
  cache removes the oldest 30% of the capacity (by write timestamp), whereas the
  overlap-engine cache removes only its first-inserted item; then the new item is set.
\<close>

theorem setToCache_at_capacity:
  assumes "distinct (map fst m)" and "length m \<ge> CACHE_MAX_SIZE cfg"
  shows "(length (purge_expired cfg m now) < CACHE_MAX_SIZE cfg \<longrightarrow>
            utils_setToCache cfg m key v now now' =
              map_set (purge_expired cfg m now) key \<lparr> cached_value = v, timestamp = now' \<rparr> \<and>
            engine_setToCache cfg m key v now now' =
              map_set (purge_expired cfg m now) key \<lparr> cached_value = v, timestamp = now' \<rparr>) \<and>
         (length (purge_expired cfg m now) \<ge> CACHE_MAX_SIZE cfg \<longrightarrow>
            (\<exists>removed.
               utils_setToCache cfg m key v now now' =
                 map_set (filter (\<lambda>kv. kv \<notin> set removed) (purge_expired cfg m now)) key
                   \<lparr> cached_value = v, timestamp = now' \<rparr> \<and>
               set removed \<subseteq> set (purge_expired cfg m now) \<and> distinct removed \<and>
               length removed = 3 * CACHE_MAX_SIZE cfg div 10 \<and>
               (\<forall>r \<in> set removed. \<forall>s \<in> set (purge_expired cfg m now) - set removed.
                  timestamp (snd r) \<le> timestamp (snd s))) \<and>
            engine_setToCache cfg m key v now now' =
              map_set (tl (purge_expired cfg m now)) key \<lparr> cached_value = v, timestamp = now' \<rparr>)"
proof (intro conjI impI)
  let ?p = "purge_expired cfg m now"
  note cl = cleanExpiredCache_purge [OF assms(1), of cfg now]
  {
    assume "length ?p < CACHE_MAX_SIZE cfg"
    then show "utils_setToCache cfg m key v now now' =
        map_set ?p key \<lparr> cached_value = v, timestamp = now' \<rparr>"
      and "engine_setToCache cfg m key v now now' =
        map_set ?p key \<lparr> cached_value = v, timestamp = now' \<rparr>"
      using assms(2) by (simp_all add: utils_setToCache_def engine_setToCache_def cl Let_def)
  }
  assume full: "length ?p \<ge> CACHE_MAX_SIZE cfg"
  have dp: "distinct (map fst ?p)" using assms(1) by (rule distinct_purge)
  have n: "3 * CACHE_MAX_SIZE cfg div 10 \<le> length ?p" using full by simp
  have u: "utils_setToCache cfg m key v now now' =
      map_set (fold (\<lambda>kv m''. map_delete m'' (fst kv))
                 (take (3 * CACHE_MAX_SIZE cfg div 10) (sort_key (\<lambda>kv. timestamp (snd kv)) ?p)) ?p)
        key \<lparr> cached_value = v, timestamp = now' \<rparr>"
    using assms(2) full by (simp add: utils_setToCache_def cl Let_def)
  from evict_oldest [OF dp n] u
  show "\<exists>removed.
       utils_setToCache cfg m key v now now' =
         map_set (filter (\<lambda>kv. kv \<notin> set removed) ?p) key \<lparr> cached_value = v, timestamp = now' \<rparr> \<and>
       set removed \<subseteq> set ?p \<and> distinct removed \<and>
       length removed = 3 * CACHE_MAX_SIZE cfg div 10 \<and>
       (\<forall>r \<in> set removed. \<forall>s \<in> set ?p - set removed. timestamp (snd r) \<le> timestamp (snd s))"
    by (elim exE conjE) (intro exI conjI, simp_all)
  have "(case ?p of [] \<Rightarrow> ?p | (oldestKey, item) # rest \<Rightarrow> map_delete ?p oldestKey) = tl ?p"
  proof (cases ?p)
    case Nil then show ?thesis by simp
  next
    case (Cons a rest)
    obtain k e where a: "a = (k, e)" by (cases a)
    from dp Cons a have "map_delete ((k, e) # rest) k = rest" by (simp only: map_delete_first)
    with Cons a show ?thesis by simp
  qed
  then show "engine_setToCache cfg m key v now now' =
      map_set (tl ?p) key \<lparr> cached_value = v, timestamp = now' \<rparr>"
    using assms(2) full by (simp add: engine_setToCache_def cl Let_def)
qed


theorem setToCache_at_capacity_witness:
  "distinct (map fst (numbered_cache 4)) \<and>
   length (numbered_cache 4) \<ge> CACHE_MAX_SIZE small_config \<and>
   length (purge_expired small_config (numbered_cache 4) 5) \<ge> CACHE_MAX_SIZE small_config \<and>
   (\<exists>removed.
      utils_setToCache small_config (numbered_cache 4) ''k'' () 5 6 =
        map_set (filter (\<lambda>kv. kv \<notin> set removed) (purge_expired small_config (numbered_cache 4) 5))
          ''k'' \<lparr> cached_value = (), timestamp = 6 \<rparr> \<and>
      length removed = 3 * CACHE_MAX_SIZE small_config div 10) \<and>
   engine_setToCache small_config (numbered_cache 4) ''k'' () 5 6 =
     map_set (tl (purge_expired small_config (numbered_cache 4) 5)) ''k''
       \<lparr> cached_value = (), timestamp = 6 \<rparr>"
proof -
  have d: "distinct (map fst (numbered_cache 4))" by code_simp
  have l: "length (numbered_cache 4) \<ge> CACHE_MAX_SIZE small_config" by code_simp
  have p: "length (purge_expired small_config (numbered_cache 4) 5) \<ge> CACHE_MAX_SIZE small_config"
    by code_simp
  from setToCache_at_capacity [OF d l, of 5 "''k''" "()" 6] p d l
  show ?thesis by blast
qed

section \<open>Properties of the batch analysis\<close>

lemma lower_label_no_counter:
  "toLowerCase (label sev) \<noteq> ''critical'' \<and> toLowerCase (label sev) \<noteq> ''high'' \<and>
   toLowerCase (label sev) \<noteq> ''medium'' \<and> toLowerCase (label sev) \<noteq> ''low''"
  by (cases sev) (simp_all add: toLowerCase_def char_toLowerCase_def)

lemma tally_severity_unchanged: "tally_severity sb c = sb"
  using lower_label_no_counter
  by (simp add: tally_severity_def Let_def split: option.splits)

lemma foldl_tally_severity: "foldl tally_severity sb cs = sb"
  by (induction cs arbitrary: sb) (simp_all add: tally_severity_unchanged)

text \<open>
  C10.  For every input list, the four counters of \<open>severityBreakdown\<close> in the statistics
  of the batch analysis are 0, whatever conflicts were found: a conflict is tallied under
  the lower-cased label of its severity, which is none of the counter keys.
\<close>

theorem severityBreakdown_always_zero:
  "severityBreakdown (statistics (analyzeBatch ps)) = \<lparr> critical = 0, high = 0, medium = 0, low = 0 \<rparr>"
  by (simp add: analyzeBatch_def generateBatchStatistics_def Let_def foldl_tally_severity
      split: prod.splits)

lemma validate_entries_valid:
  "map (\<lambda>vp. (vp_index vp, vp_prefix vp)) (fst (validate_entries i ps)) =
     filter (\<lambda>kp. entry_is_valid (snd kp)) (zip [i..<i + length ps] ps)"
proof (induction ps arbitrary: i)
  case Nil
  then show ?case by simp
next
  case (Cons p ps)
  have "i < Suc i + length ps" by simp
  then have "[i..<Suc i + length ps] = i # [Suc i..<Suc i + length ps]" by (rule upt_conv_Cons)
  moreover have "i + length (p # ps) = Suc i + length ps" by simp
  ultimately have z:
    "zip [i..<i + length (p # ps)] (p # ps) = (i, p) # zip [Suc i..<Suc i + length ps] ps"
    by (simp only: zip_Cons_Cons)
  show ?case
    unfolding z using Cons.IH [of "Suc i"]
    by (auto simp add: entry_is_valid_def Let_def simp del: upt_Suc split: prod.splits sum.splits)
qed

lemma validate_entries_invalid:
  "snd (validate_entries i ps) =
     map (\<lambda>kp. \<lparr> index = fst kp, b_prefix = snd kp, valid = False \<rparr>)
       (filter (\<lambda>kp. \<not> entry_is_valid (snd kp)) (zip [i..<i + length ps] ps))"
proof (induction ps arbitrary: i)
  case Nil
  then show ?case by simp
next
  case (Cons p ps)
  have "i < Suc i + length ps" by simp
  then have "[i..<Suc i + length ps] = i # [Suc i..<Suc i + length ps]" by (rule upt_conv_Cons)
  moreover have "i + length (p # ps) = Suc i + length ps" by simp
  ultimately have z:
    "zip [i..<i + length (p # ps)] (p # ps) = (i, p) # zip [Suc i..<Suc i + length ps] ps"
    by (simp only: zip_Cons_Cons)
  show ?case
    unfolding z using Cons.IH [of "Suc i"]
    by (auto simp add: entry_is_valid_def Let_def simp del: upt_Suc split: prod.splits sum.splits)
qed

lemma length_compared_pairs: "length (compared_pairs xs) = length xs choose 2"
proof (induction xs)
  case Nil
  then show ?case by simp
next
  case (Cons x xs)
  have "Suc (length xs) choose 2 = length xs + (length xs choose 2)"
    by (simp add: numeral_2_eq_2)
  with Cons show ?case by simp
qed

lemma set_compared_pairs:
  "set (compared_pairs xs) = {(xs ! i, xs ! j) | i j. i < j \<and> j < length xs}"
proof (induction xs)
  case Nil
  then show ?case by simp
next
  case (Cons x xs)
  show ?case
  proof (intro set_eqI iffI)
    fix pq assume "pq \<in> set (compared_pairs (x # xs))"
    then consider "pq \<in> Pair x ` set xs" | "pq \<in> set (compared_pairs xs)" by auto
    then show "pq \<in> {((x # xs) ! i, (x # xs) ! j) | i j. i < j \<and> j < length (x # xs)}"
    proof cases
      case 1
      then obtain k where "k < length xs" and "pq = (x, xs ! k)"
        by (auto simp: in_set_conv_nth)
      then have "pq = ((x # xs) ! 0, (x # xs) ! Suc k) \<and> 0 < Suc k \<and> Suc k < length (x # xs)"
        by simp
      then show ?thesis by blast
    next
      case 2
      with Cons.IH obtain i j where "i < j" and "j < length xs" and "pq = (xs ! i, xs ! j)"
        by auto
      then have "pq = ((x # xs) ! Suc i, (x # xs) ! Suc j) \<and> Suc i < Suc j \<and> Suc j < length (x # xs)"
        by simp
      then show ?thesis by blast
    qed
  next
    fix pq assume "pq \<in> {((x # xs) ! i, (x # xs) ! j) | i j. i < j \<and> j < length (x # xs)}"
    then obtain i j where ij: "i < j" "j < length (x # xs)" and pq: "pq = ((x # xs) ! i, (x # xs) ! j)"
      by blast
    from ij obtain j' where j': "j = Suc j'" by (cases j) auto
    show "pq \<in> set (compared_pairs (x # xs))"
    proof (cases i)
      case 0
      with pq j' ij show ?thesis by simp
    next
      case (Suc i')
      with pq j' ij have "pq = (xs ! i', xs ! j') \<and> i' < j' \<and> j' < length xs" by simp
      then have "pq \<in> set (compared_pairs xs)" unfolding Cons.IH by blast
      then show ?thesis by simp
    qed
  qed
qed

lemma zip_upt_nth: "zip [0..<length ps] ps = map (\<lambda>k. (k, ps ! k)) [0..<length ps]"
  by (rule nth_equalityI) simp_all

lemma batch_validPrefixes_indices:
  "map vp_index (batch_validPrefixes ps) = filter (\<lambda>k. entry_is_valid (ps ! k)) [0..<length ps]"
proof -
  have "map vp_index (batch_validPrefixes ps) =
      map fst (map (\<lambda>vp. (vp_index vp, vp_prefix vp)) (batch_validPrefixes ps))"
    by simp
  also have "\<dots> = map fst (filter (\<lambda>kp. entry_is_valid (snd kp)) (zip [0..<length ps] ps))"
    unfolding batch_validPrefixes_def using validate_entries_valid [of 0 ps] by simp
  also have "\<dots> = filter (\<lambda>k. entry_is_valid (ps ! k)) [0..<length ps]"
    unfolding zip_upt_nth by (simp add: filter_map comp_def)
  finally show ?thesis .
qed

lemma batch_validPrefixes_entry:
  assumes "vp \<in> set (batch_validPrefixes ps)"
  shows "vp_index vp < length ps \<and> vp_prefix vp = ps ! vp_index vp \<and>
    entry_is_valid (ps ! vp_index vp)"
proof -
  from assms have "(vp_index vp, vp_prefix vp) \<in>
      set (map (\<lambda>vp. (vp_index vp, vp_prefix vp)) (batch_validPrefixes ps))"
    by force
  also have "map (\<lambda>vp. (vp_index vp, vp_prefix vp)) (batch_validPrefixes ps) =
      filter (\<lambda>kp. entry_is_valid (snd kp)) (zip [0..<length ps] ps)"
    unfolding batch_validPrefixes_def using validate_entries_valid [of 0 ps] by simp
  finally show ?thesis unfolding zip_upt_nth by auto
qed

lemma batch_validPrefixes_increasing:
  assumes "a < b" and "b < length (batch_validPrefixes ps)"
  shows "vp_index (batch_validPrefixes ps ! a) < vp_index (batch_validPrefixes ps ! b)"
proof -
  have "sorted_wrt (<) (map vp_index (batch_validPrefixes ps))"
    unfolding batch_validPrefixes_indices by (rule sorted_wrt_filter) (rule sorted_wrt_upt)
  then have "map vp_index (batch_validPrefixes ps) ! a < map vp_index (batch_validPrefixes ps) ! b"
    using assms by (simp add: sorted_wrt_iff_nth_less)
  then show ?thesis using assms by simp
qed

lemma batch_validPrefixes_position:
  assumes "i < length ps" and "entry_is_valid (ps ! i)"
  shows "\<exists>a < length (batch_validPrefixes ps). vp_index (batch_validPrefixes ps ! a) = i"
proof -
  have "i \<in> set (map vp_index (batch_validPrefixes ps))"
    unfolding batch_validPrefixes_indices using assms by simp
  then obtain a where "a < length (map vp_index (batch_validPrefixes ps))"
    and "map vp_index (batch_validPrefixes ps) ! a = i"
    unfolding in_set_conv_nth by blast
  then show ?thesis by auto
qed

lemma distinct_map_sort_key: "distinct (map f (sort_key g xs)) = distinct (map f xs)"
  by (simp add: distinct_map)

lemma set_map_filter: "set (List.map_filter f xs) = {y. \<exists>x \<in> set xs. f x = Some y}"
  by (induction xs) (auto simp add: List.map_filter_simps split: option.splits)

lemma conflicts_analyzeBatch:
  "conflicts (analyzeBatch ps) = List.map_filter compare_pair (batch_comparisons ps)"
  by (simp add: analyzeBatch_def batch_comparisons_def batch_validPrefixes_def Let_def
      split: prod.splits)

text \<open>The conflict that is pushed for the entries \<open>i\<close> and \<open>j\<close> after the result \<open>r\<close>
  of their comparison.\<close>

lemma compare_pair_Some:
  "compare_pair (v, w) = Some c \<longleftrightarrow>
     (\<exists>r. checkOverlapAdvanced (vp_prefix v) (vp_prefix w) = Inr r \<and> r_hasOverlap r \<and>
        c = \<lparr> indices = (vp_index v, vp_index w), prefixes = (vp_prefix v, vp_prefix w),
              c_overlapType = Some (overlapType r), c_severity = Some (r_severity r) \<rparr>)"
  by (auto simp add: compare_pair_def split: sum.splits)

lemma conflicts_sound:
  assumes "c \<in> set (conflicts (analyzeBatch ps))"
  shows "\<exists>i j r. i < j \<and> j < length ps \<and> entry_is_valid (ps ! i) \<and> entry_is_valid (ps ! j) \<and>
     checkOverlapAdvanced (ps ! i) (ps ! j) = Inr r \<and> r_hasOverlap r \<and>
     c = \<lparr> indices = (i, j), prefixes = (ps ! i, ps ! j),
           c_overlapType = Some (overlapType r), c_severity = Some (r_severity r) \<rparr>"
proof -
  let ?vs = "batch_validPrefixes ps"
  from assms obtain pq where pq: "pq \<in> set (batch_comparisons ps)" and c: "compare_pair pq = Some c"
    unfolding conflicts_analyzeBatch set_map_filter by blast
  from pq obtain a b where ab: "a < b" "b < length ?vs" and pq': "pq = (?vs ! a, ?vs ! b)"
    unfolding batch_comparisons_def set_compared_pairs by blast
  from c obtain r where r: "checkOverlapAdvanced (vp_prefix (?vs ! a)) (vp_prefix (?vs ! b)) = Inr r"
      "r_hasOverlap r"
      "c = \<lparr> indices = (vp_index (?vs ! a), vp_index (?vs ! b)),
             prefixes = (vp_prefix (?vs ! a), vp_prefix (?vs ! b)),
             c_overlapType = Some (overlapType r), c_severity = Some (r_severity r) \<rparr>"
    unfolding pq' compare_pair_Some by blast
  have "?vs ! a \<in> set ?vs" and "?vs ! b \<in> set ?vs" using ab by simp_all
  note ea = batch_validPrefixes_entry [OF this(1)] and eb = batch_validPrefixes_entry [OF this(2)]
  have lt: "vp_index (?vs ! a) < vp_index (?vs ! b)"
    using ab by (rule batch_validPrefixes_increasing)
  show ?thesis
    using r ea eb lt by (intro exI [of _ "vp_index (?vs ! a)"] exI [of _ "vp_index (?vs ! b)"] exI [of _ r]) simp
qed

lemma conflicts_complete:
  assumes ij: "i < j" "j < length ps" and v: "entry_is_valid (ps ! i)" "entry_is_valid (ps ! j)"
    and r: "checkOverlapAdvanced (ps ! i) (ps ! j) = Inr r" "r_hasOverlap r"
  shows "\<lparr> indices = (i, j), prefixes = (ps ! i, ps ! j),
           c_overlapType = Some (overlapType r), c_severity = Some (r_severity r) \<rparr>
         \<in> set (conflicts (analyzeBatch ps))"
proof -
  let ?vs = "batch_validPrefixes ps"
  from ij have i: "i < length ps" by simp
  from batch_validPrefixes_position [OF i v(1)] obtain a where
    a: "a < length ?vs" "vp_index (?vs ! a) = i" by blast
  from batch_validPrefixes_position [OF ij(2) v(2)] obtain b where
    b: "b < length ?vs" "vp_index (?vs ! b) = j" by blast
  have ab: "a < b"
  proof (rule ccontr)
    assume "\<not> a < b"
    then consider "a = b" | "b < a" by linarith
    then show False
    proof cases
      case 1
      with a b ij show False by simp
    next
      case 2
      from batch_validPrefixes_increasing [OF 2 a(1)] a b ij show False by simp
    qed
  qed
  have "?vs ! a \<in> set ?vs" and "?vs ! b \<in> set ?vs" using a b by simp_all
  note ea = batch_validPrefixes_entry [OF this(1)] and eb = batch_validPrefixes_entry [OF this(2)]
  have pa: "vp_prefix (?vs ! a) = ps ! i" and pb: "vp_prefix (?vs ! b) = ps ! j"
    using ea eb a b by simp_all
  have "(?vs ! a, ?vs ! b) \<in> set (batch_comparisons ps)"
    unfolding batch_comparisons_def set_compared_pairs using ab b(1) by blast
  moreover have "compare_pair (?vs ! a, ?vs ! b) =
      Some \<lparr> indices = (i, j), prefixes = (ps ! i, ps ! j),
             c_overlapType = Some (overlapType r), c_severity = Some (r_severity r) \<rparr>"
    unfolding compare_pair_Some using r a b pa pb by simp
  ultimately show ?thesis
    unfolding conflicts_analyzeBatch set_map_filter by blast
qed

text \<open>The report lists every entry at its own index, with the verdict of its own validation.\<close>

lemma results_analyzeBatch:
  "results (analyzeBatch ps) =
     map (\<lambda>i. \<lparr> index = i, b_prefix = ps ! i, valid = entry_is_valid (ps ! i) \<rparr>) [0..<length ps]"
proof -
  let ?g = "\<lambda>i. \<lparr> index = i, b_prefix = ps ! i, valid = entry_is_valid (ps ! i) \<rparr>"
  let ?rs = "snd (validate_entries 0 ps) @
     map (\<lambda>vp. \<lparr> index = vp_index vp, b_prefix = vp_prefix vp, valid = True \<rparr>) (batch_validPrefixes ps)"
  have res: "results (analyzeBatch ps) = sort_key index ?rs"
    by (simp add: analyzeBatch_def batch_validPrefixes_def Let_def split: prod.splits)
  have inv: "snd (validate_entries 0 ps) =
      map ?g (filter (\<lambda>k. \<not> entry_is_valid (ps ! k)) [0..<length ps])"
    unfolding validate_entries_invalid [of 0 ps, simplified] zip_upt_nth
    by (simp add: filter_map comp_def)
  have "map (\<lambda>vp. \<lparr> index = vp_index vp, b_prefix = vp_prefix vp, valid = True \<rparr>) (batch_validPrefixes ps)
      = map (\<lambda>vp. ?g (vp_index vp)) (batch_validPrefixes ps)"
    using batch_validPrefixes_entry [of _ ps] by (intro map_cong) simp_all
  also have "\<dots> = map ?g (map vp_index (batch_validPrefixes ps))" by simp
  finally have val: "map (\<lambda>vp. \<lparr> index = vp_index vp, b_prefix = vp_prefix vp, valid = True \<rparr>)
      (batch_validPrefixes ps) = map ?g (filter (\<lambda>k. entry_is_valid (ps ! k)) [0..<length ps])"
    unfolding batch_validPrefixes_indices .
  have rs: "?rs = map ?g (filter (\<lambda>k. \<not> entry_is_valid (ps ! k)) [0..<length ps] @
      filter (\<lambda>k. entry_is_valid (ps ! k)) [0..<length ps])"
    unfolding inv val by simp
  have ix: "map index ?rs = filter (\<lambda>k. \<not> entry_is_valid (ps ! k)) [0..<length ps] @
      filter (\<lambda>k. entry_is_valid (ps ! k)) [0..<length ps]"
    unfolding rs by (simp add: comp_def)
  have set_rs: "set ?rs = ?g ` {0..<length ps}"
    unfolding rs by auto
  have d: "distinct (map index ?rs)"
    unfolding ix by auto
  show ?thesis
    unfolding res
  proof (rule map_sorted_distinct_set_unique [where f = index])
    show "inj_on index (set (sort_key index ?rs) \<union> set (map ?g [0..<length ps]))"
      unfolding set_sort set_rs by (auto simp add: inj_on_def)
    show "sorted (map index (sort_key index ?rs))" by (rule sorted_sort_key)
    show "distinct (map index (sort_key index ?rs))"
      using d by (simp only: distinct_map_sort_key)
    show "sorted (map index (map ?g [0..<length ps]))" by (simp add: comp_def)
    show "distinct (map index (map ?g [0..<length ps]))" by (simp add: comp_def)
    show "set (sort_key index ?rs) = set (map ?g [0..<length ps])"
      unfolding set_sort set_rs by simp
  qed
qed

text \<open>
  C8.  For every input list the batch analysis validates each entry on its own and returns
  a report in which every entry stands at its own index with the verdict of its own
  validation, the invalid ones among them.  The entries that are compared are the valid
  ones, each with its index, so an invalid entry takes part in no comparison, and all
  \<open>C(n,2)\<close> unordered pairs of the \<open>n\<close> valid entries are compared.  The comparison of a
  pair is \<open>checkOverlapAdvanced\<close> on its two texts: a conflict with the indices \<open>(i, j)\<close>
  is reported exactly when \<open>i < j\<close>, both entries are valid and \<open>checkOverlapAdvanced\<close>
  returns a result that has an overlap, and the conflict carries the type and the severity
  of that result.  (A comparison that ends in an error result, as for an entry without a
  prefix length, reports no conflict.)
\<close>

theorem analyzeBatch_isolates_invalid_entries:
  "results (analyzeBatch ps) =
     map (\<lambda>i. \<lparr> index = i, b_prefix = ps ! i, valid = entry_is_valid (ps ! i) \<rparr>) [0..<length ps] \<and>
   (\<forall>i < length ps. \<not> entry_is_valid (ps ! i) \<longrightarrow>
       \<lparr> index = i, b_prefix = ps ! i, valid = False \<rparr> \<in> set (results (analyzeBatch ps))) \<and>
   map (\<lambda>vp. (vp_index vp, vp_prefix vp)) (batch_validPrefixes ps) =
     filter (\<lambda>kp. entry_is_valid (snd kp)) (zip [0..<length ps] ps) \<and>
   set (batch_comparisons ps) =
     {(batch_validPrefixes ps ! i, batch_validPrefixes ps ! j) | i j.
        i < j \<and> j < length (batch_validPrefixes ps)} \<and>
   length (batch_comparisons ps) = length (batch_validPrefixes ps) choose 2 \<and>
   conflicts (analyzeBatch ps) = List.map_filter compare_pair (batch_comparisons ps) \<and>
   (\<forall>c. c \<in> set (conflicts (analyzeBatch ps)) \<longleftrightarrow>
      (\<exists>i j r. i < j \<and> j < length ps \<and> entry_is_valid (ps ! i) \<and> entry_is_valid (ps ! j) \<and>
         checkOverlapAdvanced (ps ! i) (ps ! j) = Inr r \<and> r_hasOverlap r \<and>
         c = \<lparr> indices = (i, j), prefixes = (ps ! i, ps ! j),
               c_overlapType = Some (overlapType r), c_severity = Some (r_severity r) \<rparr>)) \<and>
   (\<forall>i j. i < j \<and> j < length ps \<and> entry_is_valid (ps ! i) \<and> entry_is_valid (ps ! j) \<longrightarrow>
      ((\<exists>c \<in> set (conflicts (analyzeBatch ps)). indices c = (i, j)) \<longleftrightarrow>
       (\<exists>r. checkOverlapAdvanced (ps ! i) (ps ! j) = Inr r \<and> r_hasOverlap r)))"
proof (intro conjI allI impI)
  show r: "results (analyzeBatch ps) =
     map (\<lambda>i. \<lparr> index = i, b_prefix = ps ! i, valid = entry_is_valid (ps ! i) \<rparr>) [0..<length ps]"
    by (rule results_analyzeBatch)
  fix i assume i: "i < length ps" and inv: "\<not> entry_is_valid (ps ! i)"
  then show "\<lparr> index = i, b_prefix = ps ! i, valid = False \<rparr> \<in> set (results (analyzeBatch ps))"
    unfolding r by force
next
  show "map (\<lambda>vp. (vp_index vp, vp_prefix vp)) (batch_validPrefixes ps) =
     filter (\<lambda>kp. entry_is_valid (snd kp)) (zip [0..<length ps] ps)"
    unfolding batch_validPrefixes_def using validate_entries_valid [of 0 ps] by simp
next
  show "set (batch_comparisons ps) =
     {(batch_validPrefixes ps ! i, batch_validPrefixes ps ! j) | i j.
        i < j \<and> j < length (batch_validPrefixes ps)}"
    unfolding batch_comparisons_def by (rule set_compared_pairs)
next
  show "length (batch_comparisons ps) = length (batch_validPrefixes ps) choose 2"
    unfolding batch_comparisons_def by (rule length_compared_pairs)
next
  show "conflicts (analyzeBatch ps) = List.map_filter compare_pair (batch_comparisons ps)"
    by (rule conflicts_analyzeBatch)
next
  fix c
  show "c \<in> set (conflicts (analyzeBatch ps)) \<longleftrightarrow>
      (\<exists>i j r. i < j \<and> j < length ps \<and> entry_is_valid (ps ! i) \<and> entry_is_valid (ps ! j) \<and>
         checkOverlapAdvanced (ps ! i) (ps ! j) = Inr r \<and> r_hasOverlap r \<and>
         c = \<lparr> indices = (i, j), prefixes = (ps ! i, ps ! j),
               c_overlapType = Some (overlapType r), c_severity = Some (r_severity r) \<rparr>)"
    using conflicts_sound [of c ps] conflicts_complete [of _ _ ps] by blast
next
  fix i j assume a: "i < j \<and> j < length ps \<and> entry_is_valid (ps ! i) \<and> entry_is_valid (ps ! j)"
  show "(\<exists>c \<in> set (conflicts (analyzeBatch ps)). indices c = (i, j)) \<longleftrightarrow>
       (\<exists>r. checkOverlapAdvanced (ps ! i) (ps ! j) = Inr r \<and> r_hasOverlap r)"
  proof
    assume "\<exists>c \<in> set (conflicts (analyzeBatch ps)). indices c = (i, j)"
    then obtain c where c: "c \<in> set (conflicts (analyzeBatch ps))" "indices c = (i, j)" by blast
    from conflicts_sound [OF c(1)] c(2)
    show "\<exists>r. checkOverlapAdvanced (ps ! i) (ps ! j) = Inr r \<and> r_hasOverlap r" by auto
  next
    assume "\<exists>r. checkOverlapAdvanced (ps ! i) (ps ! j) = Inr r \<and> r_hasOverlap r"
    then obtain r where "checkOverlapAdvanced (ps ! i) (ps ! j) = Inr r" "r_hasOverlap r" by blast
    with a conflicts_complete [of i j ps r]
    have "\<lparr> indices = (i, j), prefixes = (ps ! i, ps ! j),
           c_overlapType = Some (overlapType r), c_severity = Some (r_severity r) \<rparr>
         \<in> set (conflicts (analyzeBatch ps))" by blast
    then show "\<exists>c \<in> set (conflicts (analyzeBatch ps)). indices c = (i, j)" by force
  qed
qed

theorem analyzeBatch_isolates_invalid_entries_witness:
  "length example_batch = 3 \<and>
   \<not> entry_is_valid (example_batch ! 1) \<and>
   entry_is_valid (example_batch ! 0) \<and> entry_is_valid (example_batch ! 2) \<and>
   (\<exists>r. checkOverlapAdvanced (example_batch ! 0) (example_batch ! 2) = Inr r \<and> r_hasOverlap r) \<and>
   \<lparr> index = 1, b_prefix = example_batch ! 1, valid = False \<rparr>
      \<in> set (results (analyzeBatch example_batch)) \<and>
   (\<exists>c \<in> set (conflicts (analyzeBatch example_batch)). indices c = (0, 2)) \<and>
   map indices (conflicts (analyzeBatch example_batch)) = [(0, 2)]"
proof -
  have l: "length example_batch = 3" by (simp add: example_batch_def)
  have inv: "\<not> entry_is_valid (example_batch ! 1)" by code_simp
  have v0: "entry_is_valid (example_batch ! 0)" by code_simp
  have v2: "entry_is_valid (example_batch ! 2)" by code_simp
  have "case checkOverlapAdvanced (example_batch ! 0) (example_batch ! 2) of
      Inr r \<Rightarrow> r_hasOverlap r | Inl e \<Rightarrow> False" by code_simp
  then have ov: "\<exists>r. checkOverlapAdvanced (example_batch ! 0) (example_batch ! 2) = Inr r \<and> r_hasOverlap r"
    by (cases "checkOverlapAdvanced (example_batch ! 0) (example_batch ! 2)") simp_all
  note t = analyzeBatch_isolates_invalid_entries [of example_batch]
  note t2 = t [THEN conjunct2, THEN conjunct1, rule_format]
  note t8 = t [THEN conjunct2, THEN conjunct2, THEN conjunct2, THEN conjunct2, THEN conjunct2,
    THEN conjunct2, THEN conjunct2, rule_format]
  have r1: "\<lparr> index = 1, b_prefix = example_batch ! 1, valid = False \<rparr>
      \<in> set (results (analyzeBatch example_batch))"
    using l inv by (intro t2) simp_all
  have "(\<exists>c \<in> set (conflicts (analyzeBatch example_batch)). indices c = (0, 2)) \<longleftrightarrow>
       (\<exists>r. checkOverlapAdvanced (example_batch ! 0) (example_batch ! 2) = Inr r \<and> r_hasOverlap r)"
    using l v0 v2 by (intro t8) simp
  with ov have c02: "\<exists>c \<in> set (conflicts (analyzeBatch example_batch)). indices c = (0, 2)"
    by (rule iffD2 [rotated])
  have cs: "map indices (conflicts (analyzeBatch example_batch)) = [(0, 2)]" by code_simp
  from l inv v0 v2 ov r1 c02 cs show ?thesis by blast
qed

section \<open>Properties of the text primitives\<close>

lemma is_hex_not_colon: "is_hex c \<Longrightarrow> c \<noteq> CHR '':''"
  by (auto simp: is_hex_def)

lemma is_hex_zero: "is_hex (CHR ''0'')"
  by (simp add: is_hex_def)

lemma split_char_nonempty: "split_char c s \<noteq> []"
  by (induction s) (auto split: list.splits)

lemma split_char_no_sep: "c \<notin> set g \<Longrightarrow> split_char c g = [g]"
  by (induction g) auto

lemma split_char_append_sep:
  "c \<notin> set g \<Longrightarrow> split_char c (g @ c # rest) = g # split_char c rest"
  by (induction g) auto

lemma split_char_join:
  assumes "gs \<noteq> []" and "\<forall>g \<in> set gs. c \<notin> set g"
  shows "split_char c (join [c] gs) = gs"
  using assms
proof (induction "[c]" gs rule: join.induct)
  case 1
  then show ?case by simp
next
  case (2 x)
  then show ?case by (simp add: split_char_no_sep)
next
  case (3 x y ys)
  then show ?case by (simp add: split_char_append_sep)
qed

lemma join_Nil_iff: "\<forall>g \<in> set gs. g \<noteq> [] \<Longrightarrow> join sep gs = [] \<longleftrightarrow> gs = []"
  by (induction sep gs rule: join.induct) auto

lemma join_append:
  "xs \<noteq> [] \<Longrightarrow> ys \<noteq> [] \<Longrightarrow> join sep (xs @ ys) = join sep xs @ sep @ join sep ys"
  by (induction sep xs rule: join.induct) (auto simp: neq_Nil_conv)

lemma set_join_subset: "set (join sep gs) \<subseteq> set sep \<union> \<Union> (set ` set gs)"
  by (induction sep gs rule: join.induct) auto

lemma filter_join_colon:
  "\<forall>g \<in> set gs. CHR '':'' \<notin> set g \<Longrightarrow> filter (\<lambda>c. c \<noteq> CHR '':'') (join '':'' gs) = concat gs"
  by (induction "'':''" gs rule: join.induct) (auto simp: filter_id_conv)

subsection \<open>Texts without a double colon\<close>

lemma no_dcolon_split: "no_dcolon s \<Longrightarrow> split_dcolon s = [s]"
  by (induction s rule: split_dcolon.induct) auto

lemma no_dcolon_count: "no_dcolon s \<Longrightarrow> count_dcolon s = 0"
  by (induction s rule: count_dcolon.induct) auto

lemma no_dcolon_includes: "no_dcolon s \<longleftrightarrow> \<not> str_includes s ''::''"
  by (induction s rule: no_dcolon.induct) auto

lemma includes3_includes2: "str_includes s '':::'' \<Longrightarrow> str_includes s ''::''"
proof (induction s)
  case Nil
  then show ?case by simp
next
  case (Cons a s)
  then show ?case by (cases s; cases "tl s") auto
qed

lemma split_dcolon_mid:
  assumes "no_dcolon s" and "s = [] \<or> last s \<noteq> CHR '':''" and "no_dcolon k"
  shows "split_dcolon (s @ ''::'' @ k) = [s, k]"
  using assms
proof (induction s rule: no_dcolon.induct)
  case (1 a b s)
  then show ?case by auto
next
  case 2
  then show ?case by (simp add: no_dcolon_split)
next
  case (3 v)
  then show ?case by (simp add: no_dcolon_split)
qed

lemma count_dcolon_mid:
  assumes "no_dcolon s" and "s = [] \<or> last s \<noteq> CHR '':''" and "no_dcolon k"
  shows "count_dcolon (s @ ''::'' @ k) = 1"
  using assms
proof (induction s rule: no_dcolon.induct)
  case (1 a b s)
  then show ?case by auto
next
  case 2
  then show ?case by (simp add: no_dcolon_count)
next
  case (3 v)
  then show ?case by (simp add: no_dcolon_count)
qed

lemma includes_mid: "str_includes (s @ ''::'' @ k) ''::''"
  by (induction s) auto

lemma not_includes3_mid:
  assumes "no_dcolon s" and "s = [] \<or> last s \<noteq> CHR '':''"
    and "no_dcolon k" and "k = [] \<or> hd k \<noteq> CHR '':''"
  shows "\<not> str_includes (s @ ''::'' @ k) '':::''"
  using assms
proof (induction s rule: no_dcolon.induct)
  case (1 a b s)
  then show ?case by auto
next
  case 2
  have "\<not> str_includes k '':::''"
    using 2(3) includes3_includes2 no_dcolon_includes by blast
  with 2 show ?case by (cases k; cases "tl k") auto
next
  case (3 v)
  have "\<not> str_includes k '':::''"
    using 3(3) includes3_includes2 no_dcolon_includes by blast
  with 3 show ?case by (cases k; cases "tl k") auto
qed

lemma no_dcolon_plain_prefix:
  assumes "plain_group x" and "no_dcolon r" and "r \<noteq> []" and "hd r \<noteq> CHR '':''"
  shows "no_dcolon (x @ '':'' @ r)"
  using assms
proof (induction x)
  case Nil
  then show ?case by (simp add: plain_group_def)
next
  case (Cons a x)
  show ?case
  proof (cases x)
    case Nil
    with Cons.prems show ?thesis by (cases r) (auto simp: plain_group_def)
  next
    case (Cons b x')
    with Cons.prems Cons.IH show ?thesis by (auto simp: plain_group_def)
  qed
qed

lemma join_plain_groups:
  assumes "list_all plain_group gs"
  shows "no_dcolon (join '':'' gs) \<and> clean_ends (join '':'' gs)"
  using assms
proof (induction "'':''" gs rule: join.induct)
  case 1
  then show ?case by (simp add: clean_ends_def)
next
  case (2 x)
  then have ne: "x \<noteq> []" and nc: "CHR '':'' \<notin> set x" by (simp_all add: plain_group_def)
  have "no_dcolon y" if "CHR '':'' \<notin> set y" for y
    using that by (induction y rule: no_dcolon.induct) auto
  then have "no_dcolon x" using nc by simp
  moreover have "hd x \<in> set x" and "last x \<in> set x" using ne by simp_all
  then have "hd x \<noteq> CHR '':''" and "last x \<noteq> CHR '':''" using nc by auto
  ultimately show ?case by (simp add: clean_ends_def)
next
  case (3 x y ys)
  from 3(2) have x: "plain_group x" and rest: "list_all plain_group (y # ys)" by simp_all
  from 3(1) [OF rest]
  have r: "no_dcolon (join '':'' (y # ys))" "clean_ends (join '':'' (y # ys))" by simp_all
  have ne: "join '':'' (y # ys) \<noteq> []"
    using rest by (cases ys) (auto simp: plain_group_def)
  with r have h: "hd (join '':'' (y # ys)) \<noteq> CHR '':''" and l: "last (join '':'' (y # ys)) \<noteq> CHR '':''"
    by (simp_all add: clean_ends_def)
  have "no_dcolon (x @ '':'' @ join '':'' (y # ys))"
    using x r(1) ne h by (rule no_dcolon_plain_prefix)
  moreover have "clean_ends (x @ '':'' @ join '':'' (y # ys))"
    using x ne l by (cases x) (auto simp: clean_ends_def plain_group_def)
  ultimately show ?case by simp
qed

subsection \<open>Groups\<close>

lemma all_hex_no_colon: "list_all is_hex g \<Longrightarrow> CHR '':'' \<notin> set g"
proof
  assume "list_all is_hex g" and "CHR '':'' \<in> set g"
  then have "is_hex (CHR '':'')" by (simp add: list_all_iff)
  then show False by (simp add: is_hex_def)
qed

lemma hex4_plain: "hex4 g \<Longrightarrow> plain_group g"
  using all_hex_no_colon [of g] by (auto simp: hex4_def plain_group_def)

lemma HEX_GROUP_plain: "HEX_GROUP g \<Longrightarrow> plain_group g"
  using all_hex_no_colon [of g] by (auto simp: HEX_GROUP_def plain_group_def)

lemma hex4_HEX_GROUP: "hex4 g \<Longrightarrow> HEX_GROUP g"
  by (simp add: hex4_def HEX_GROUP_def)

lemma padStart_hex4: "hex4 g \<Longrightarrow> padStart 4 (CHR ''0'') g = g"
  by (simp add: hex4_def padStart_def)

lemma padStart_HEX_GROUP: "HEX_GROUP g \<Longrightarrow> hex4 (padStart 4 (CHR ''0'') g)"
  by (auto simp: hex4_def HEX_GROUP_def padStart_def is_hex_zero list_all_iff)

lemma strip_zeros_HEX_GROUP: "hex4 g \<Longrightarrow> HEX_GROUP (strip_zeros g)"
proof -
  assume g: "hex4 g"
  have "set (dropWhile (\<lambda>c. c = CHR ''0'') g) \<subseteq> set g" by (rule set_dropWhileD [THEN subsetI])
  moreover have "length (dropWhile (\<lambda>c. c = CHR ''0'') g) \<le> length g" by (rule length_dropWhile_le)
  ultimately show ?thesis
    using g by (auto simp: hex4_def HEX_GROUP_def strip_zeros_def Let_def is_hex_zero list_all_iff
        Suc_le_eq)
qed

lemma padStart_strip_zeros: "hex4 g \<Longrightarrow> padStart 4 (CHR ''0'') (strip_zeros g) = g"
proof -
  assume g: "hex4 g"
  let ?z = "takeWhile (\<lambda>c. c = CHR ''0'') g" and ?r = "dropWhile (\<lambda>c. c = CHR ''0'') g"
  have split: "?z @ ?r = g" by simp
  have z: "replicate (length ?z) (CHR ''0'') = ?z"
    by (rule replicate_length_same) (auto dest: set_takeWhileD)
  have "length ?z + length ?r = length (?z @ ?r)" by (simp only: length_append)
  also have "\<dots> = length g" by (simp only: takeWhile_dropWhile_id)
  finally have len: "length ?z + length ?r = 4" using g by (simp add: hex4_def)
  show ?thesis
  proof (cases "?r = []")
    case True
    with len have l4: "length ?z = 4" by simp
    have "g = ?z" using split True by (metis append_Nil2)
    also have "\<dots> = replicate 4 (CHR ''0'')" using z l4 by simp
    finally have "g = ''0000''" by (simp add: numeral_eq_Suc)
    then show ?thesis by (simp add: strip_zeros_def padStart_def eval_nat_numeral)
  next
    case False
    have "4 - length ?r = length ?z" using len by simp
    then have "padStart 4 (CHR ''0'') ?r = ?z @ ?r" using z by (simp add: padStart_def)
    then have "padStart 4 (CHR ''0'') ?r = g" by (simp only: takeWhile_dropWhile_id)
    moreover have "strip_zeros g = ?r" using False by (simp only: strip_zeros_def Let_def if_False)
    ultimately show ?thesis by simp
  qed
qed

section \<open>The search for the longest run of zero groups\<close>

lemma zero_run_nth: "zero_run gs s l \<Longrightarrow> k < l \<Longrightarrow> gs ! (s + k) = ''0000''"
  by (simp add: zero_run_def)

lemma zero_run_sub: "zero_run gs s l \<Longrightarrow> s \<le> s' \<Longrightarrow> s' + l' \<le> s + l \<Longrightarrow> zero_run gs s' l'"
proof -
  assume r: "zero_run gs s l" and a: "s \<le> s'" and b: "s' + l' \<le> s + l"
  have "gs ! (s' + k) = ''0000''" if "k < l'" for k
  proof -
    have "s' + k = s + (s' - s + k)" and "s' - s + k < l" using a b that by simp_all
    with r show ?thesis by (metis zero_run_nth)
  qed
  with r a b show ?thesis by (simp add: zero_run_def)
qed

text \<open>A run that ends before \<open>n\<close> lies inside the current run or before it.\<close>

lemma run_inside_or_before:
  assumes inv: "run_inv gs n st" and r: "zero_run gs s l" and l: "0 < l" and e: "s + l \<le> n"
  shows "n - currentLength st \<le> s \<or> s + l \<le> n - currentLength st"
proof (rule ccontr)
  assume "\<not> ?thesis"
  then have a: "s < n - currentLength st" and b: "n - currentLength st < s + l" by simp_all
  from a have c: "currentLength st < n" by simp
  with inv have nz: "gs ! (n - currentLength st - 1) \<noteq> ''0000''" by (simp add: run_inv_def)
  have "n - currentLength st - 1 = s + (n - currentLength st - 1 - s)"
    and "n - currentLength st - 1 - s < l" using a b by simp_all
  with r have "gs ! (n - currentLength st - 1) = ''0000''" by (metis zero_run_nth)
  with nz show False by simp
qed

text \<open>After the current run has been absorbed, the best run is the leftmost longest run
  that ends before \<open>n\<close>.\<close>

lemma absorb_current_best:
  assumes inv: "run_inv gs n st"
  shows "(bestLength (absorb_current st) = 0 \<longrightarrow> bestStart (absorb_current st) = - 1)"
    and "0 < bestLength (absorb_current st) \<Longrightarrow>
      0 \<le> bestStart (absorb_current st) \<and>
      zero_run gs (nat (bestStart (absorb_current st))) (bestLength (absorb_current st)) \<and>
      nat (bestStart (absorb_current st)) + bestLength (absorb_current st) \<le> n"
    and "0 < l \<Longrightarrow> zero_run gs s l \<Longrightarrow> s + l \<le> n \<Longrightarrow>
      l \<le> bestLength (absorb_current st) \<and>
      (l = bestLength (absorb_current st) \<longrightarrow> nat (bestStart (absorb_current st)) \<le> s)"
proof -
  let ?cl = "currentLength st" and ?bl = "bestLength st"
  from inv have cl: "?cl \<le> n" and cur: "zero_run gs (n - ?cl) ?cl"
    and cs: "currentStart st = (if ?cl = 0 then - 1 else int (n - ?cl))"
    and b0: "?bl = 0 \<longrightarrow> bestStart st = - 1"
    and b1: "0 < ?bl \<longrightarrow> 0 \<le> bestStart st \<and> zero_run gs (nat (bestStart st)) ?bl \<and>
        nat (bestStart st) + ?bl \<le> n - ?cl"
    and old: "\<And>s l. 0 < l \<Longrightarrow> zero_run gs s l \<Longrightarrow> s + l \<le> n - ?cl \<Longrightarrow>
        l \<le> ?bl \<and> (l = ?bl \<longrightarrow> nat (bestStart st) \<le> s)"
    by (simp_all add: run_inv_def)
  have ncs: "nat (currentStart st) = n - ?cl" and pcs: "0 \<le> currentStart st" if "?cl \<noteq> 0"
    using cs that by simp_all
  show "bestLength (absorb_current st) = 0 \<longrightarrow> bestStart (absorb_current st) = - 1"
    using b0 by (simp add: absorb_current_def)
  show "0 \<le> bestStart (absorb_current st) \<and>
      zero_run gs (nat (bestStart (absorb_current st))) (bestLength (absorb_current st)) \<and>
      nat (bestStart (absorb_current st)) + bestLength (absorb_current st) \<le> n"
    if "0 < bestLength (absorb_current st)"
  proof (cases "?cl > ?bl")
    case True
    then have "?cl \<noteq> 0" by simp
    with True ncs pcs cur cl show ?thesis by (simp add: absorb_current_def)
  next
    case False
    with that b1 show ?thesis by (auto simp add: absorb_current_def)
  qed
  show "l \<le> bestLength (absorb_current st) \<and>
      (l = bestLength (absorb_current st) \<longrightarrow> nat (bestStart (absorb_current st)) \<le> s)"
    if l: "0 < l" and r: "zero_run gs s l" and e: "s + l \<le> n"
  proof -
    from run_inside_or_before [OF inv r l e]
    consider (inside) "n - ?cl \<le> s" | (before) "s + l \<le> n - ?cl" by blast
    then show ?thesis
    proof cases
      case inside
      with e have lc: "l \<le> ?cl" by simp
      show ?thesis
      proof (cases "?cl > ?bl")
        case True
        then have "?cl \<noteq> 0" by simp
        with True ncs lc inside e show ?thesis by (simp add: absorb_current_def)
      next
        case False
        with lc l have "0 < ?bl" by simp
        with b1 have "nat (bestStart st) + ?bl \<le> n - ?cl" by simp
        with False lc inside show ?thesis by (simp add: absorb_current_def)
      qed
    next
      case before
      from old [OF l r before] show ?thesis by (simp add: absorb_current_def)
    qed
  qed
qed

lemma zero_run_step_zero:
  assumes "n < length gs" and "gs ! n = ''0000''"
  shows "zero_run_step gs st n =
     st \<lparr> currentStart := (if currentStart st = - 1 then int n else currentStart st),
          currentLength := currentLength st + 1 \<rparr>"
  using assms by (simp add: zero_run_step_def)

lemma zero_run_step_other:
  assumes "gs ! n \<noteq> ''0000''"
  shows "zero_run_step gs st n = (absorb_current st) \<lparr> currentStart := - 1, currentLength := 0 \<rparr>"
  using assms by (simp add: zero_run_step_def absorb_current_def)

lemma run_inv_step:
  assumes inv: "run_inv gs n st" and n: "n < length gs"
  shows "run_inv gs (Suc n) (zero_run_step gs st n)"
proof (cases "gs ! n = ''0000''")
  case True
  let ?cl = "currentLength st"
  from inv have cl: "?cl \<le> n" and cur: "zero_run gs (n - ?cl) ?cl"
    and nz: "?cl < n \<longrightarrow> gs ! (n - ?cl - 1) \<noteq> ''0000''"
    and cs: "currentStart st = (if ?cl = 0 then - 1 else int (n - ?cl))"
    and rest: "(bestLength st = 0 \<longrightarrow> bestStart st = - 1) \<and>
     (0 < bestLength st \<longrightarrow>
        0 \<le> bestStart st \<and> zero_run gs (nat (bestStart st)) (bestLength st) \<and>
        nat (bestStart st) + bestLength st \<le> n - ?cl) \<and>
     (\<forall>s l. 0 < l \<and> zero_run gs s l \<and> s + l \<le> n - ?cl \<longrightarrow>
        l \<le> bestLength st \<and> (l = bestLength st \<longrightarrow> nat (bestStart st) \<le> s))"
    unfolding run_inv_def by blast+
  have ext: "zero_run gs (n - ?cl) (Suc ?cl)"
    unfolding zero_run_def
  proof (intro conjI allI impI)
    show "n - ?cl + Suc ?cl \<le> length gs" using cl n by simp
    fix k assume "k < Suc ?cl"
    then consider "k < ?cl" | "k = ?cl" by linarith
    then show "gs ! (n - ?cl + k) = ''0000''"
    proof cases
      case 1
      with cur show ?thesis by (rule zero_run_nth)
    next
      case 2
      with cl True show ?thesis by simp
    qed
  qed
  have start: "(if currentStart st = - 1 then int n else currentStart st) = int (n - ?cl)"
    using cs cl by (cases "?cl = 0") simp_all
  have d: "Suc n - Suc ?cl = n - ?cl" by simp
  show ?thesis
    unfolding zero_run_step_zero [OF n True] run_inv_def
    using cl ext nz start rest by (auto simp add: d)
next
  case False
  let ?a = "absorb_current st"
  note best = absorb_current_best [OF inv]
  have z0: "zero_run gs (Suc n) 0" using n by (simp add: zero_run_def)
  have all: "l \<le> bestLength ?a \<and> (l = bestLength ?a \<longrightarrow> nat (bestStart ?a) \<le> s)"
    if l: "0 < l" and r: "zero_run gs s l" and e: "s + l \<le> Suc n" for s l
  proof -
    have "s + l \<noteq> Suc n"
    proof
      assume eq: "s + l = Suc n"
      then have "n = s + (l - 1)" and "l - 1 < l" using l by simp_all
      with r have "gs ! n = ''0000''" by (metis zero_run_nth)
      with False show False by simp
    qed
    with e have "s + l \<le> n" by simp
    with best(3) [OF l r] show ?thesis by simp
  qed
  have b1: "0 < bestLength ?a \<longrightarrow>
        0 \<le> bestStart ?a \<and> zero_run gs (nat (bestStart ?a)) (bestLength ?a) \<and>
        nat (bestStart ?a) + bestLength ?a \<le> Suc n"
    using best(2) by auto
  show ?thesis
    unfolding zero_run_step_other [OF False] run_inv_def
    using z0 False best(1) b1 all by auto
qed

lemma run_inv_init: "run_inv gs 0 zero_run_init"
  by (simp add: run_inv_def zero_run_init_def zero_run_def)

lemma run_inv_loop:
  "n \<le> length gs \<Longrightarrow> run_inv gs n (foldl (zero_run_step gs) zero_run_init [0..<n])"
proof (induction n)
  case 0
  then show ?case by (simp add: run_inv_init)
next
  case (Suc n)
  then have "run_inv gs n (foldl (zero_run_step gs) zero_run_init [0..<n])" and "n < length gs"
    by simp_all
  then have "run_inv gs (Suc n) (zero_run_step gs (foldl (zero_run_step gs) zero_run_init [0..<n]) n)"
    by (rule run_inv_step)
  then show ?case by simp
qed

lemma zero_run_search_absorb:
  "zero_run_search gs = absorb_current (foldl (zero_run_step gs) zero_run_init [0..<8])"
  by (simp add: zero_run_search_def absorb_current_def zero_run_init_def Let_def)

text \<open>What the search returns on eight groups.\<close>

lemma zero_run_search_found:
  assumes len: "length gs = 8" and pos: "0 < bestLength (zero_run_search gs)"
  shows "0 \<le> bestStart (zero_run_search gs)"
    and "longest_leftmost_zero_run gs (nat (bestStart (zero_run_search gs)))
           (bestLength (zero_run_search gs))"
proof -
  have inv: "run_inv gs 8 (foldl (zero_run_step gs) zero_run_init [0..<8])"
    using run_inv_loop [of 8 gs] len by simp
  note best = absorb_current_best [OF inv, folded zero_run_search_absorb]
  from best(2) [OF pos] show "0 \<le> bestStart (zero_run_search gs)" by simp
  have longest: "l' \<le> bestLength (zero_run_search gs)" if "zero_run gs s' l'" for s' l'
  proof (cases "l' = 0")
    case True then show ?thesis by simp
  next
    case False
    then have "0 < l'" by simp
    moreover have "s' + l' \<le> 8" using that len by (simp add: zero_run_def)
    ultimately show ?thesis using best(3) that by blast
  qed
  have leftmost: "nat (bestStart (zero_run_search gs)) \<le> s'"
    if "zero_run gs s' (bestLength (zero_run_search gs))" for s'
  proof -
    have "s' + bestLength (zero_run_search gs) \<le> 8" using that len by (simp add: zero_run_def)
    with best(3) [OF pos that] show ?thesis by simp
  qed
  show "longest_leftmost_zero_run gs (nat (bestStart (zero_run_search gs)))
           (bestLength (zero_run_search gs))"
    unfolding longest_leftmost_zero_run_def
    using pos best(2) [OF pos] longest leftmost by blast
qed

lemma zero_run_search_none:
  assumes len: "length gs = 8" and "bestLength (zero_run_search gs) = 0" and "0 < l"
  shows "\<not> zero_run gs s l"
proof
  assume r: "zero_run gs s l"
  have inv: "run_inv gs 8 (foldl (zero_run_step gs) zero_run_init [0..<8])"
    using run_inv_loop [of 8 gs] len by simp
  note best = absorb_current_best [OF inv, folded zero_run_search_absorb]
  have "s + l \<le> 8" using r len by (simp add: zero_run_def)
  with best(3) [OF assms(3) r] assms(2,3) show False by simp
qed

lemma longest_leftmost_unique:
  assumes "longest_leftmost_zero_run gs s l" and "longest_leftmost_zero_run gs s' l'"
  shows "s = s' \<and> l = l'"
proof -
  from assms have "l' \<le> l" and "l \<le> l'" unfolding longest_leftmost_zero_run_def by blast+
  then have l: "l = l'" by simp
  with assms have "s \<le> s'" and "s' \<le> s" unfolding longest_leftmost_zero_run_def by blast+
  with l show ?thesis by simp
qed

section \<open>Expansion and compression\<close>

lemma strip_brackets_id:
  assumes "CHR ''['' \<notin> set s" and "CHR '']'' \<notin> set s"
  shows "strip_brackets s = s"
proof (cases s)
  case Nil
  then show ?thesis by (simp add: strip_brackets_def)
next
  case (Cons c r)
  then have "last s \<in> set s" by simp
  with assms Cons have "c \<noteq> CHR ''[''" and "last s \<noteq> CHR '']''" by auto
  with Cons assms show ?thesis by (auto simp add: strip_brackets_def)
qed

lemma addr_chars_mem: "addr_chars s \<Longrightarrow> c \<in> set s \<Longrightarrow> is_hex c \<or> c = CHR '':''"
  by (simp add: addr_chars_def list_all_iff)

lemma addr_chars_no_bracket:
  assumes "addr_chars s"
  shows "CHR ''['' \<notin> set s \<and> CHR '']'' \<notin> set s"
proof -
  have "\<not> (is_hex (CHR ''['') \<or> CHR ''['' = CHR '':'')" and "\<not> (is_hex (CHR '']'') \<or> CHR '']'' = CHR '':'')"
    by (simp_all add: is_hex_def)
  with addr_chars_mem [OF assms] show ?thesis by blast
qed

lemma addr_chars_strip_brackets: "addr_chars s \<Longrightarrow> strip_brackets s = s"
  using addr_chars_no_bracket strip_brackets_id by blast

lemma addr_chars_join:
  assumes "list_all (list_all is_hex) gs"
  shows "addr_chars (join '':'' gs)"
proof -
  have "c \<in> set (join '':'' gs) \<Longrightarrow> is_hex c \<or> c = CHR '':''" for c
    using set_join_subset [of "'':''" gs] assms by (auto simp: list_all_iff)
  then show ?thesis by (simp add: addr_chars_def list_all_iff)
qed

lemma addr_chars_append: "addr_chars (a @ b) \<longleftrightarrow> addr_chars a \<and> addr_chars b"
  by (simp add: addr_chars_def)

lemma groups_of_join:
  assumes "list_all plain_group gs"
  shows "(if join '':'' gs \<noteq> [] then filter (\<lambda>g. g \<noteq> []) (split_char CHR '':'' (join '':'' gs))
          else []) = gs"
proof (cases "gs = []")
  case True
  then show ?thesis by simp
next
  case False
  have ne: "\<forall>g \<in> set gs. g \<noteq> []" and nc: "\<forall>g \<in> set gs. CHR '':'' \<notin> set g"
    using assms by (auto simp: list_all_iff plain_group_def)
  from ne False have j: "join '':'' gs \<noteq> []" by (simp add: join_Nil_iff)
  have "split_char CHR '':'' (join '':'' gs) = gs" using False nc by (rule split_char_join)
  moreover have "filter (\<lambda>g. g \<noteq> []) gs = gs" using ne by (simp add: filter_id_conv)
  ultimately show ?thesis using j by simp
qed

lemma find_HEX_GROUP_None: "list_all HEX_GROUP gs \<Longrightarrow> find (\<lambda>g. \<not> HEX_GROUP g) gs = None"
  by (simp add: find_None_iff list_all_iff)

lemma performExpansion_compressed_form:
  assumes bs: "list_all HEX_GROUP bs" and as: "list_all HEX_GROUP as"
    and le: "length bs + length as \<le> 8"
  shows "performExpansion (join '':'' bs @ ''::'' @ join '':'' as) =
     Inr (join '':'' (map (padStart 4 CHR ''0'') bs @ replicate (8 - (length bs + length as)) ''0000''
            @ map (padStart 4 CHR ''0'') as))"
proof -
  let ?J = "join '':'' bs" and ?K = "join '':'' as"
  have pb: "list_all plain_group bs" and pa: "list_all plain_group as"
    using bs as by (auto simp: list_all_iff HEX_GROUP_plain)
  have hb: "list_all (list_all is_hex) bs" and ha: "list_all (list_all is_hex) as"
    using bs as by (auto simp: list_all_iff HEX_GROUP_def)
  have "addr_chars (?J @ ''::'' @ ?K)"
    using addr_chars_join [OF hb] addr_chars_join [OF ha] by (simp add: addr_chars_def)
  then have sb: "strip_brackets (?J @ ''::'' @ ?K) = ?J @ ''::'' @ ?K"
    by (rule addr_chars_strip_brackets)
  from join_plain_groups [OF pb] have nJ: "no_dcolon ?J" and eJ: "?J = [] \<or> last ?J \<noteq> CHR '':''"
    by (auto simp: clean_ends_def)
  from join_plain_groups [OF pa] have nK: "no_dcolon ?K" by simp
  have parts: "split_dcolon (?J @ ''::'' @ ?K) = [?J, ?K]"
    using nJ eJ nK by (rule split_dcolon_mid)
  have inc: "str_includes (?J @ ''::'' @ ?K) ''::''" by (rule includes_mid)
  have z: "HEX_GROUP ''0000''" by (simp add: HEX_GROUP_def is_hex_zero)
  have all: "list_all HEX_GROUP (bs @ replicate (8 - (length bs + length as)) ''0000'' @ as)"
    using bs as z by (auto simp add: list_all_iff)
  have pz: "padStart 4 CHR ''0'' ''0000'' = ''0000''" by (simp add: padStart_def)
  have "performExpansion (?J @ ''::'' @ ?K) =
      (if length bs + length as > 8 then Inl TooManyGroups
       else case find (\<lambda>g. \<not> HEX_GROUP g)
                   (bs @ replicate (8 - (length bs + length as)) ''0000'' @ as) of
              Some g \<Rightarrow> Inl (InvalidHexGroup g)
            | None \<Rightarrow> Inr (join '':'' (map (padStart 4 CHR ''0'')
                       (bs @ replicate (8 - (length bs + length as)) ''0000'' @ as))))"
    unfolding performExpansion_def sb Let_def parts
    by (simp only: inc groups_of_join [OF pb] groups_of_join [OF pa] nth_Cons_0 nth_Cons_Suc
        One_nat_def not_True_eq_False if_False)
  then show ?thesis
    using le find_HEX_GROUP_None [OF all] by (simp add: pz)
qed

lemma performExpansion_full_form:
  assumes gs: "list_all HEX_GROUP gs" and len: "length gs = 8"
  shows "performExpansion (join '':'' gs) = Inr (join '':'' (map (padStart 4 CHR ''0'') gs))"
proof -
  have pg: "list_all plain_group gs" using gs by (auto simp: list_all_iff HEX_GROUP_plain)
  have hg: "list_all (list_all is_hex) gs" using gs by (auto simp: list_all_iff HEX_GROUP_def)
  have sb: "strip_brackets (join '':'' gs) = join '':'' gs"
    using addr_chars_join [OF hg] by (rule addr_chars_strip_brackets)
  have ni: "\<not> str_includes (join '':'' gs) ''::''"
    using join_plain_groups [OF pg] no_dcolon_includes by blast
  have "gs \<noteq> []" using len by auto
  moreover have "\<forall>g \<in> set gs. CHR '':'' \<notin> set g" using pg by (auto simp: list_all_iff plain_group_def)
  ultimately have sp: "split_char CHR '':'' (join '':'' gs) = gs" by (rule split_char_join)
  show ?thesis
    unfolding performExpansion_def sb Let_def using ni sp len by simp
qed

lemma expanded_groups_HEX: "expanded_groups gs \<Longrightarrow> list_all HEX_GROUP gs"
  by (auto simp: expanded_groups_def list_all_iff hex4_HEX_GROUP)

lemma map_padStart_hex4: "list_all hex4 gs \<Longrightarrow> map (padStart 4 CHR ''0'') gs = gs"
  by (induction gs) (simp_all add: padStart_hex4)

lemma map_padStart_strip: "list_all hex4 gs \<Longrightarrow> map (padStart 4 CHR ''0'') (map strip_zeros gs) = gs"
  by (induction gs) (simp_all add: padStart_strip_zeros)

lemma list_all_strip: "list_all hex4 gs \<Longrightarrow> list_all HEX_GROUP (map strip_zeros gs)"
  by (induction gs) (simp_all add: strip_zeros_HEX_GROUP)

text \<open>Expansion leaves an expanded text as it is.\<close>

lemma performExpansion_expanded:
  assumes "expanded_groups gs"
  shows "performExpansion (join '':'' gs) = Inr (join '':'' gs)"
proof -
  have "length gs = 8" and h4: "list_all hex4 gs" using assms by (simp_all add: expanded_groups_def)
  with performExpansion_full_form [OF expanded_groups_HEX [OF assms]] map_padStart_hex4 [OF h4]
  show ?thesis by simp
qed

lemma split_expanded:
  assumes "expanded_groups gs"
  shows "split_char CHR '':'' (join '':'' gs) = gs"
proof -
  have "gs \<noteq> []" using assms by (auto simp: expanded_groups_def)
  moreover have "\<forall>g \<in> set gs. CHR '':'' \<notin> set g"
    using assms hex4_plain by (auto simp: expanded_groups_def list_all_iff plain_group_def)
  ultimately show ?thesis by (rule split_char_join)
qed

lemma zero_run_decompose:
  assumes "zero_run gs s l"
  shows "take s gs @ replicate l ''0000'' @ drop (s + l) gs = gs"
proof -
  have le: "s + l \<le> length gs" using assms by (simp add: zero_run_def)
  have "take l (drop s gs) = replicate l ''0000''"
  proof (rule nth_equalityI)
    show "length (take l (drop s gs)) = length (replicate l ''0000'')" using le by simp
    fix i assume "i < length (take l (drop s gs))"
    then have i: "i < l" by simp
    with le assms show "take l (drop s gs) ! i = replicate l ''0000'' ! i"
      by (simp add: zero_run_def)
  qed
  moreover have "take l (drop s gs) @ drop l (drop s gs) = drop s gs"
    by (rule append_take_drop_id)
  then have "take s gs @ take l (drop s gs) @ drop (s + l) gs = gs"
    by (simp add: add.commute)
  ultimately show ?thesis by simp
qed

text \<open>The two shapes of the result of \<open>performCompression\<close> on an expanded text.\<close>

lemma performCompression_expanded:
  assumes "expanded_groups gs"
  shows "performCompression (join '':'' gs) =
     (if bestLength (zero_run_search gs) < 2 then join '':'' (map strip_zeros gs)
      else join '':'' (map strip_zeros (take (nat (bestStart (zero_run_search gs))) gs)) @ ''::'' @
           join '':'' (map strip_zeros
             (drop (nat (bestStart (zero_run_search gs)) + bestLength (zero_run_search gs)) gs)))"
  by (simp add: performCompression_def expandAddress_def performExpansion_expanded [OF assms]
      split_expanded [OF assms] Let_def)

lemma short_best_no_run2:
  assumes len: "length gs = 8" and short: "bestLength (zero_run_search gs) < 2"
  shows "\<not> zero_run gs s 2"
proof
  assume r: "zero_run gs s 2"
  show False
  proof (cases "bestLength (zero_run_search gs) = 0")
    case True
    from zero_run_search_none [OF len True, of 2 s] r show False by simp
  next
    case False
    then have "0 < bestLength (zero_run_search gs)" by simp
    from zero_run_search_found(2) [OF len this] r
    have "2 \<le> bestLength (zero_run_search gs)"
      unfolding longest_leftmost_zero_run_def by blast
    with short show False by simp
  qed
qed

text \<open>
  C5.  On an expanded text of eight groups, \<open>compress\<close> replaces the longest run of at
  least two \<open>0000\<close> groups by \<open>::\<close>, the leftmost one among the longest; when there is no
  run of two it inserts no \<open>::\<close>; in both cases every remaining group loses its leading
  zeros.
\<close>

theorem performCompression_longest_zero_run:
  assumes "expanded_groups gs"
  shows "(\<forall>s l. longest_leftmost_zero_run gs s l \<and> 2 \<le> l \<longrightarrow>
            performCompression (join '':'' gs) =
              join '':'' (map strip_zeros (take s gs)) @ ''::'' @
              join '':'' (map strip_zeros (drop (s + l) gs))) \<and>
         ((\<forall>s. \<not> zero_run gs s 2) \<longrightarrow>
            performCompression (join '':'' gs) = join '':'' (map strip_zeros gs) \<and>
            \<not> str_includes (performCompression (join '':'' gs)) ''::'')"
proof (intro conjI allI impI)
  fix s l assume a: "longest_leftmost_zero_run gs s l \<and> 2 \<le> l"
  have len: "length gs = 8" using assms by (simp add: expanded_groups_def)
  from a have run: "zero_run gs s l" and l: "0 < l"
    by (simp_all add: longest_leftmost_zero_run_def)
  have pos: "0 < bestLength (zero_run_search gs)"
  proof (rule ccontr)
    assume "\<not> ?thesis"
    then have "bestLength (zero_run_search gs) = 0" by simp
    from zero_run_search_none [OF len this l] run show False by simp
  qed
  from longest_leftmost_unique [OF zero_run_search_found(2) [OF len pos]] a
  have "nat (bestStart (zero_run_search gs)) = s" and "bestLength (zero_run_search gs) = l"
    by blast+
  with a show "performCompression (join '':'' gs) =
      join '':'' (map strip_zeros (take s gs)) @ ''::'' @
      join '':'' (map strip_zeros (drop (s + l) gs))"
    by (simp add: performCompression_expanded [OF assms])
next
  assume none: "\<forall>s. \<not> zero_run gs s 2"
  have len: "length gs = 8" and h4: "list_all hex4 gs"
    using assms by (simp_all add: expanded_groups_def)
  have short: "bestLength (zero_run_search gs) < 2"
  proof (rule ccontr)
    assume "\<not> ?thesis"
    then have pos: "0 < bestLength (zero_run_search gs)" and two: "2 \<le> bestLength (zero_run_search gs)"
      by simp_all
    from zero_run_search_found(2) [OF len pos]
    have "zero_run gs (nat (bestStart (zero_run_search gs))) (bestLength (zero_run_search gs))"
      by (simp add: longest_leftmost_zero_run_def)
    then have "zero_run gs (nat (bestStart (zero_run_search gs))) 2"
      by (rule zero_run_sub) (use two in simp_all)
    with none show False by blast
  qed
  then show eq: "performCompression (join '':'' gs) = join '':'' (map strip_zeros gs)"
    by (simp add: performCompression_expanded [OF assms])
  have "list_all plain_group (map strip_zeros gs)"
    using list_all_strip [OF h4] by (auto simp: list_all_iff HEX_GROUP_plain)
  from join_plain_groups [OF this]
  show "\<not> str_includes (performCompression (join '':'' gs)) ''::''"
    unfolding eq using no_dcolon_includes by blast
qed

theorem performCompression_longest_zero_run_witness:
  "expanded_groups example_groups \<and> longest_leftmost_zero_run example_groups 2 2 \<and>
   performCompression (join '':'' example_groups) = ''2001:db8::1:0:0:1'' \<and>
   expanded_groups example_groups_no_run \<and> (\<forall>s. \<not> zero_run example_groups_no_run s 2) \<and>
   performCompression (join '':'' example_groups_no_run) = ''2001:db8:0:a0:0:1:0:1''"
proof -
  have e1: "expanded_groups example_groups" and e2: "expanded_groups example_groups_no_run"
    by code_simp+
  have len1: "length example_groups = 8" and len2: "length example_groups_no_run = 8"
    by (simp_all add: example_groups_def example_groups_no_run_def)
  have s1: "bestStart (zero_run_search example_groups) = 2"
    and b1: "bestLength (zero_run_search example_groups) = 2"
    and b2: "bestLength (zero_run_search example_groups_no_run) < 2"
    by code_simp+
  have run: "longest_leftmost_zero_run example_groups 2 2"
    using zero_run_search_found(2) [OF len1] s1 b1 by simp
  have none: "\<forall>s. \<not> zero_run example_groups_no_run s 2"
    using short_best_no_run2 [OF len2 b2] by blast
  have v1: "join '':'' (map strip_zeros (take 2 example_groups)) @ ''::'' @
      join '':'' (map strip_zeros (drop (2 + 2) example_groups)) = ''2001:db8::1:0:0:1''"
    and v2: "join '':'' (map strip_zeros example_groups_no_run) = ''2001:db8:0:a0:0:1:0:1''"
    by code_simp+
  have "longest_leftmost_zero_run example_groups 2 2 \<and> (2::nat) \<le> 2" using run by simp
  with performCompression_longest_zero_run [OF e1]
  have "performCompression (join '':'' example_groups) =
      join '':'' (map strip_zeros (take 2 example_groups)) @ ''::'' @
      join '':'' (map strip_zeros (drop (2 + 2) example_groups))" by blast
  then have c1: "performCompression (join '':'' example_groups) = ''2001:db8::1:0:0:1''"
    by (simp only: v1)
  from performCompression_longest_zero_run [OF e2] none
  have "performCompression (join '':'' example_groups_no_run) =
      join '':'' (map strip_zeros example_groups_no_run)" by blast
  then have c2: "performCompression (join '':'' example_groups_no_run) = ''2001:db8:0:a0:0:1:0:1''"
    by (simp only: v2)
  from e1 e2 run none c1 c2 show ?thesis by blast
qed

subsection \<open>Round trip\<close>

text \<open>Expanding a valid text gives eight groups of four digits.\<close>

lemma isValidFormat_expands:
  assumes "isValidFormat t"
  shows "\<exists>gs. expanded_groups gs \<and> performExpansion t = Inr (join '':'' gs)"
proof -
  from assms have ac: "addr_chars t"
    by (simp add: isValidFormat_def addr_chars_def split: if_splits)
  then have sb: "strip_brackets t = t" by (rule addr_chars_strip_brackets)
  show ?thesis
  proof (cases "str_includes t ''::''")
    case True
    let ?parts = "split_dcolon t"
    let ?b = "if ?parts ! 0 \<noteq> [] then filter (\<lambda>g. g \<noteq> []) (split_char CHR '':'' (?parts ! 0)) else []"
    let ?a = "if ?parts ! 1 \<noteq> [] then filter (\<lambda>g. g \<noteq> []) (split_char CHR '':'' (?parts ! 1)) else []"
    from assms True have "validateCompressedFormat t"
      by (simp add: isValidFormat_def split: if_splits)
    then have le: "length ?b + length ?a \<le> 8" and hx: "list_all HEX_GROUP (?b @ ?a)"
      by (simp_all add: validateCompressedFormat_def Let_def split: if_splits)
    let ?all = "?b @ replicate (8 - (length ?b + length ?a)) ''0000'' @ ?a"
    have z: "HEX_GROUP ''0000''" by (simp add: HEX_GROUP_def is_hex_zero)
    have all: "list_all HEX_GROUP ?all" using hx z by (auto simp add: list_all_iff)
    have "performExpansion t = Inr (join '':'' (map (padStart 4 CHR ''0'') ?all))"
      unfolding performExpansion_def sb Let_def
      using True le find_HEX_GROUP_None [OF all] by simp
    moreover have "expanded_groups (map (padStart 4 CHR ''0'') ?all)"
      using le all by (auto simp add: expanded_groups_def list_all_iff padStart_HEX_GROUP)
    ultimately show ?thesis by blast
  next
    case False
    from assms False have "validateFullFormat t"
      by (simp add: isValidFormat_def split: if_splits)
    then have len: "length (split_char CHR '':'' t) = 8"
      and hx: "list_all HEX_GROUP (split_char CHR '':'' t)"
      by (simp_all add: validateFullFormat_def Let_def split: if_splits)
    have "performExpansion t = Inr (join '':'' (map (padStart 4 CHR ''0'') (split_char CHR '':'' t)))"
      unfolding performExpansion_def sb Let_def using False len by simp
    moreover have "expanded_groups (map (padStart 4 CHR ''0'') (split_char CHR '':'' t))"
      using len hx by (auto simp add: expanded_groups_def list_all_iff padStart_HEX_GROUP)
    ultimately show ?thesis by blast
  qed
qed

text \<open>Expansion undoes compression on an expanded text.\<close>

lemma performExpansion_performCompression:
  assumes "expanded_groups gs"
  shows "performExpansion (performCompression (join '':'' gs)) = Inr (join '':'' gs)"
proof -
  have len: "length gs = 8" and h4: "list_all hex4 gs"
    using assms by (simp_all add: expanded_groups_def)
  let ?st = "zero_run_search gs"
  show ?thesis
  proof (cases "bestLength ?st < 2")
    case True
    then have c: "performCompression (join '':'' gs) = join '':'' (map strip_zeros gs)"
      by (simp add: performCompression_expanded [OF assms])
    have "performExpansion (join '':'' (map strip_zeros gs)) =
        Inr (join '':'' (map (padStart 4 CHR ''0'') (map strip_zeros gs)))"
      using list_all_strip [OF h4] len by (intro performExpansion_full_form) simp_all
    then show ?thesis unfolding c by (simp only: map_padStart_strip [OF h4])
  next
    case False
    let ?s = "nat (bestStart ?st)" and ?l = "bestLength ?st"
    from False have pos: "0 < ?l" by simp
    from zero_run_search_found(2) [OF len pos] have run: "zero_run gs ?s ?l"
      by (simp add: longest_leftmost_zero_run_def)
    then have sl: "?s + ?l \<le> 8" using len by (simp add: zero_run_def)
    let ?bs = "map strip_zeros (take ?s gs)" and ?as = "map strip_zeros (drop (?s + ?l) gs)"
    have c: "performCompression (join '':'' gs) = join '':'' ?bs @ ''::'' @ join '':'' ?as"
      using False by (simp add: performCompression_expanded [OF assms])
    have hb: "list_all hex4 (take ?s gs)" and ha: "list_all hex4 (drop (?s + ?l) gs)"
      using h4 by (auto simp: list_all_iff dest: in_set_takeD in_set_dropD)
    have lb: "length ?bs = ?s" and la: "length ?as = 8 - (?s + ?l)" using sl len by simp_all
    have le: "length ?bs + length ?as \<le> 8" unfolding lb la using sl by simp
    have miss: "8 - (length ?bs + length ?as) = ?l" unfolding lb la using sl by simp
    have "performExpansion (join '':'' ?bs @ ''::'' @ join '':'' ?as) =
        Inr (join '':'' (map (padStart 4 CHR ''0'') ?bs @ replicate (8 - (length ?bs + length ?as)) ''0000''
               @ map (padStart 4 CHR ''0'') ?as))"
      using list_all_strip [OF hb] list_all_strip [OF ha] le
      by (rule performExpansion_compressed_form)
    also have "\<dots> = Inr (join '':'' (take ?s gs @ replicate ?l ''0000'' @ drop (?s + ?l) gs))"
      by (simp only: miss map_padStart_strip [OF hb] map_padStart_strip [OF ha])
    also have "\<dots> = Inr (join '':'' gs)" by (simp only: zero_run_decompose [OF run])
    finally show ?thesis unfolding c .
  qed
qed

lemma performCompression_via_expand:
  assumes "expandAddress t = Inr e" and "expandAddress e = Inr e"
  shows "performCompression t = performCompression e"
  using assms by (simp add: performCompression_def)

lemma is_hex_not_space: "is_hex c \<Longrightarrow> \<not> is_js_space c"
  by (auto simp: is_hex_def is_js_space_def)

lemma BigInt_0x_hex:
  assumes "h \<noteq> []" and "list_all is_hex h"
  shows "BigInt_0x h = Some (hex_value h)"
proof -
  have "last h \<in> set h" using assms(1) by simp
  then have "\<not> is_js_space (last h)" using assms(2) is_hex_not_space by (simp add: list_all_iff)
  then have "dropWhile is_js_space (rev h) = rev h"
    using assms(1) by (cases "rev h") (simp_all add: last_rev [symmetric] hd_rev)
  then show ?thesis using assms by (simp add: BigInt_0x_def)
qed

lemma ipv6ToBigInt_expanded:
  assumes "expanded_groups gs"
  shows "ipv6ToBigInt (join '':'' gs) = Inr (hex_value (concat gs))"
proof -
  have nc: "\<forall>g \<in> set gs. CHR '':'' \<notin> set g"
    using assms hex4_plain by (auto simp: expanded_groups_def list_all_iff plain_group_def)
  have f: "filter (\<lambda>c. c \<noteq> CHR '':'') (join '':'' gs) = concat gs"
    using nc by (rule filter_join_colon)
  have "gs \<noteq> []" and "\<forall>g \<in> set gs. g \<noteq> [] \<and> list_all is_hex g"
    using assms by (auto simp: expanded_groups_def list_all_iff hex4_def)
  then have "concat gs \<noteq> []" and "list_all is_hex (concat gs)"
    by (auto simp: list_all_iff neq_Nil_conv)
  then have "BigInt_0x (concat gs) = Some (hex_value (concat gs))" by (rule BigInt_0x_hex)
  then show ?thesis
    by (simp add: ipv6ToBigInt_def expandAddress_def performExpansion_expanded [OF assms] f)
qed

text \<open>
  C6.  For a syntactically valid text \<open>T\<close>, \<open>compress(expand(T))\<close> is a fixed point of
  compression after expansion, and \<open>expand(T)\<close> and \<open>compress(T)\<close> convert to the same
  integer.
\<close>

theorem compress_expand_round_trip:
  assumes "isValidFormat t"
  shows "\<exists>e c v. expandAddress t = Inr e \<and>
           compress_after_expand t = Inr c \<and> compress_after_expand c = Inr c \<and>
           ipv6ToBigInt e = Inr v \<and> ipv6ToBigInt (compressAddress t) = Inr v"
proof -
  from isValidFormat_expands [OF assms] obtain gs
    where gs: "expanded_groups gs" and ex: "expandAddress t = Inr (join '':'' gs)"
    by (auto simp: expandAddress_def)
  let ?e = "join '':'' gs" and ?c = "compressAddress (join '':'' gs)"
  have ee: "expandAddress ?e = Inr ?e"
    using performExpansion_expanded [OF gs] by (simp add: expandAddress_def)
  have ec: "expandAddress ?c = Inr ?e"
    using performExpansion_performCompression [OF gs]
    by (simp add: expandAddress_def compressAddress_def)
  have ct: "compressAddress t = ?c"
    using performCompression_via_expand [OF ex ee] by (simp add: compressAddress_def)
  have 1: "compress_after_expand t = Inr ?c" using ex by (simp add: compress_after_expand_def)
  have 2: "compress_after_expand ?c = Inr ?c" using ec by (simp add: compress_after_expand_def)
  have 3: "ipv6ToBigInt ?e = Inr (hex_value (concat gs))" using gs by (rule ipv6ToBigInt_expanded)
  have "ipv6ToBigInt ?c = ipv6ToBigInt ?e"
    using ec ee by (simp add: ipv6ToBigInt_def)
  with 3 ct have 4: "ipv6ToBigInt (compressAddress t) = Inr (hex_value (concat gs))" by simp
  from ex 1 2 3 4 show ?thesis by blast
qed

theorem compress_expand_round_trip_witness:
  "isValidFormat ''2001:DB8:0:0:1::1'' \<and>
   expandAddress ''2001:DB8:0:0:1::1'' = Inr ''2001:0DB8:0000:0000:0001:0000:0000:0001'' \<and>
   compress_after_expand ''2001:DB8:0:0:1::1'' = Inr ''2001:DB8::1:0:0:1'' \<and>
   compress_after_expand ''2001:DB8::1:0:0:1'' = Inr ''2001:DB8::1:0:0:1'' \<and>
   ipv6ToBigInt (compressAddress ''2001:DB8:0:0:1::1'') = Inr 42540766411282592856904266426630537217"
proof -
  have v: "isValidFormat ''2001:DB8:0:0:1::1''" by code_simp
  have e: "expandAddress ''2001:DB8:0:0:1::1'' = Inr ''2001:0DB8:0000:0000:0001:0000:0000:0001''"
    and c: "compress_after_expand ''2001:DB8:0:0:1::1'' = Inr ''2001:DB8::1:0:0:1''"
    and i: "ipv6ToBigInt ''2001:0DB8:0000:0000:0001:0000:0000:0001'' =
        Inr 42540766411282592856904266426630537217"
    by code_simp+
  from compress_expand_round_trip [OF v] e c i v show ?thesis by auto
qed

section \<open>Printing and reading numbers\<close>

lemma digit_char_cases:
  assumes "(d :: nat) < 16"
  shows "d \<in> {0, 1, 2, 3, 4, 5, 6, 7, 8, 9, 10, 11, 12, 13, 14, 15}"
  using assms by simp arith

lemma digit_val_digit_char: "d < 16 \<Longrightarrow> digit_val (digit_char d) = int d"
  using digit_char_cases [of d] by (auto simp: digit_val_def digit_char_def)

lemma is_hex_digit_char: "d < 16 \<Longrightarrow> is_hex (digit_char d)"
  using digit_char_cases [of d] by (auto simp: is_hex_def digit_char_def)

lemma is_digit_digit_char: "d < 10 \<Longrightarrow> is_digit (digit_char d)"
  using digit_char_cases [of d] by (auto simp: is_digit_def digit_char_def)

lemma dec_value_snoc: "dec_value (s @ [c]) = 10 * dec_value s + digit_val c"
  by (simp add: dec_value_def)

lemma hex_value_snoc: "hex_value (s @ [c]) = 16 * hex_value s + digit_val c"
  by (simp add: hex_value_def)

lemma dec_value_toString: "0 \<le> n \<Longrightarrow> dec_value (nonneg_toString10 n) = n"
proof (induction n rule: nonneg_toString10.induct)
  case (1 n)
  show ?case
  proof (cases "n < 10")
    case True
    with "1.prems" have "nat n < 16" by simp
    then have "digit_val (digit_char (nat n)) = int (nat n)" by (rule digit_val_digit_char)
    with True "1.prems" show ?thesis
      by (simp add: nonneg_toString10.simps [of n] dec_value_def)
  next
    case False
    then have ih: "dec_value (nonneg_toString10 (n div 10)) = n div 10"
      using "1.IH" "1.prems" by simp
    have "nat (n mod 10) < 16" by simp
    then have "digit_val (digit_char (nat (n mod 10))) = int (nat (n mod 10))"
      by (rule digit_val_digit_char)
    with False ih show ?thesis
      by (simp add: nonneg_toString10.simps [of n] dec_value_snoc)
  qed
qed

lemma hex_value_toString: "0 \<le> n \<Longrightarrow> hex_value (nonneg_toString16 n) = n"
proof (induction n rule: nonneg_toString16.induct)
  case (1 n)
  show ?case
  proof (cases "n < 16")
    case True
    with "1.prems" have "nat n < 16" by simp
    then have "digit_val (digit_char (nat n)) = int (nat n)" by (rule digit_val_digit_char)
    with True "1.prems" show ?thesis
      by (simp add: nonneg_toString16.simps [of n] hex_value_def)
  next
    case False
    then have ih: "hex_value (nonneg_toString16 (n div 16)) = n div 16"
      using "1.IH" "1.prems" by simp
    have "nat (n mod 16) < 16" by simp
    then have "digit_val (digit_char (nat (n mod 16))) = int (nat (n mod 16))"
      by (rule digit_val_digit_char)
    with False ih show ?thesis
      by (simp add: nonneg_toString16.simps [of n] hex_value_snoc)
  qed
qed

lemma digits_toString10: "0 \<le> n \<Longrightarrow> list_all is_digit (nonneg_toString10 n)"
proof (induction n rule: nonneg_toString10.induct)
  case (1 n)
  show ?case
  proof (cases "n < 10")
    case True
    with "1.prems" have "nat n < 10" by simp
    then have "is_digit (digit_char (nat n))" by (rule is_digit_digit_char)
    with True show ?thesis by (simp add: nonneg_toString10.simps [of n])
  next
    case False
    then have ih: "list_all is_digit (nonneg_toString10 (n div 10))"
      using "1.IH" "1.prems" by simp
    have "nat (n mod 10) < 10" by simp
    then have "is_digit (digit_char (nat (n mod 10)))" by (rule is_digit_digit_char)
    with False ih show ?thesis by (simp add: nonneg_toString10.simps [of n])
  qed
qed

lemma hex_toString16: "0 \<le> n \<Longrightarrow> list_all is_hex (nonneg_toString16 n)"
proof (induction n rule: nonneg_toString16.induct)
  case (1 n)
  show ?case
  proof (cases "n < 16")
    case True
    with "1.prems" have "nat n < 16" by simp
    then have "is_hex (digit_char (nat n))" by (rule is_hex_digit_char)
    with True show ?thesis by (simp add: nonneg_toString16.simps [of n])
  next
    case False
    then have ih: "list_all is_hex (nonneg_toString16 (n div 16))"
      using "1.IH" "1.prems" by simp
    have "nat (n mod 16) < 16" by simp
    then have "is_hex (digit_char (nat (n mod 16)))" by (rule is_hex_digit_char)
    with False ih show ?thesis by (simp add: nonneg_toString16.simps [of n])
  qed
qed

lemma length_toString10: "0 \<le> n \<Longrightarrow> n < 10 ^ k \<Longrightarrow> 0 < k \<Longrightarrow> length (nonneg_toString10 n) \<le> k"
proof (induction n arbitrary: k rule: nonneg_toString10.induct)
  case (1 n)
  show ?case
  proof (cases "n < 10")
    case True
    with "1.prems" show ?thesis by (simp add: nonneg_toString10.simps [of n] Suc_le_eq)
  next
    case False
    obtain k' where k: "k = Suc k'" using "1.prems"(3) by (cases k) auto
    have "k' \<noteq> 0" using False "1.prems"(2) k by (cases k') auto
    moreover have "n < 10 * m \<Longrightarrow> n div 10 < m" for m :: int by presburger
    then have "n div 10 < 10 ^ k'" using "1.prems"(2) k by simp
    ultimately have "length (nonneg_toString10 (n div 10)) \<le> k'"
      using "1.IH" [of k'] False "1.prems"(1) by simp
    with False k show ?thesis by (simp add: nonneg_toString10.simps [of n])
  qed
qed

lemma length_toString16: "0 \<le> n \<Longrightarrow> n < 16 ^ k \<Longrightarrow> 0 < k \<Longrightarrow> length (nonneg_toString16 n) \<le> k"
proof (induction n arbitrary: k rule: nonneg_toString16.induct)
  case (1 n)
  show ?case
  proof (cases "n < 16")
    case True
    with "1.prems" show ?thesis by (simp add: nonneg_toString16.simps [of n] Suc_le_eq)
  next
    case False
    obtain k' where k: "k = Suc k'" using "1.prems"(3) by (cases k) auto
    have "k' \<noteq> 0" using False "1.prems"(2) k by (cases k') auto
    moreover have "n < 16 * m \<Longrightarrow> n div 16 < m" for m :: int by presburger
    then have "n div 16 < 16 ^ k'" using "1.prems"(2) k by simp
    ultimately have "length (nonneg_toString16 (n div 16)) \<le> k'"
      using "1.IH" [of k'] False "1.prems"(1) by simp
    with False k show ?thesis by (simp add: nonneg_toString16.simps [of n])
  qed
qed

lemma toString10_nonempty: "nonneg_toString10 n \<noteq> []"
  by (simp add: nonneg_toString10.simps [of n])

lemma toString16_nonempty: "nonneg_toString16 n \<noteq> []"
  by (simp add: nonneg_toString16.simps [of n])

subsection \<open>The network mask\<close>

lemma and_block_mask:
  fixes x :: int
  assumes "0 \<le> x" and "x < 2 ^ (k + p)"
  shows "x AND push_bit k (2 ^ p - 1) = push_bit k (drop_bit k x)"
proof (rule bit_eqI)
  fix n
  have x: "take_bit (k + p) x = x" using assms by (simp add: take_bit_int_eq_self)
  have "bit x n \<Longrightarrow> n < k + p" using x by (metis bit_take_bit_iff)
  then show "bit (x AND push_bit k (2 ^ p - 1)) n \<longleftrightarrow> bit (push_bit k (drop_bit k x)) n"
    unfolding mask_eq_exp_minus_1 [symmetric]
    by (auto simp add: bit_and_iff bit_push_bit_iff bit_mask_iff bit_drop_bit_eq)
qed

text \<open>The base of a block: the address with its low \<open>128 - p\<close> bits cleared.\<close>

lemma network_base:
  fixes ip :: int
  assumes ip: "0 \<le> ip" "ip < 2 ^ 128" and p: "0 \<le> p" "p \<le> 128"
    and m: "calculateNetworkMask (Some p) = Inr m"
  shows "ip AND m = ip div 2 ^ nat (128 - p) * 2 ^ nat (128 - p)"
proof (cases "p = 0")
  case True
  with m have "m = 0" by (simp add: calculateNetworkMask_def)
  moreover have "ip div 2 ^ 128 = 0" using ip by simp
  ultimately show ?thesis using True by simp
next
  case False
  with p m have m': "m = push_bit (nat (128 - p)) (push_bit (nat p) 1 - 1)"
    by (simp add: calculateNetworkMask_def)
  have "push_bit (nat p) 1 - 1 = (2 ^ nat p - 1 :: int)"
    by (simp add: push_bit_eq_mult)
  moreover have "nat (128 - p) + nat p = 128" using p by simp
  then have "ip < 2 ^ (nat (128 - p) + nat p)" using ip by simp
  ultimately have "ip AND m = push_bit (nat (128 - p)) (drop_bit (nat (128 - p)) ip)"
    unfolding m' using ip(1) and_block_mask by simp
  then show ?thesis by (simp add: push_bit_eq_mult drop_bit_eq_div)
qed

subsection \<open>A full cache of the overlap engine\<close>

lemma engine_setToCache_evicts_first:
  assumes d: "distinct (map fst m)" and full: "length m \<ge> CACHE_MAX_SIZE cfg"
    and still: "length (purge_expired cfg m now) \<ge> CACHE_MAX_SIZE cfg"
  shows "engine_setToCache cfg m key v now now' =
     map_set (tl (purge_expired cfg m now)) key \<lparr> cached_value = v, timestamp = now' \<rparr>"
proof -
  let ?p = "purge_expired cfg m now"
  note cl = cleanExpiredCache_purge [OF d, of cfg now]
  have dp: "distinct (map fst ?p)" using d by (rule distinct_purge)
  have "(case ?p of [] \<Rightarrow> ?p | (oldestKey, item) # rest \<Rightarrow> map_delete ?p oldestKey) = tl ?p"
  proof (cases ?p)
    case Nil then show ?thesis by simp
  next
    case (Cons a rest)
    obtain k e where a: "a = (k, e)" by (cases a)
    from dp Cons a have "map_delete ((k, e) # rest) k = rest" by (simp only: map_delete_first)
    with Cons a show ?thesis by simp
  qed
  then show ?thesis
    using full still by (simp add: engine_setToCache_def cl Let_def)
qed

lemma bigint_toString_nat: "bigint_toString (int i) = nonneg_toString10 (int i)"
  by (simp add: bigint_toString_def)

lemma numbered_cache_keys_distinct: "distinct (map fst (numbered_cache n))"
proof -
  have "inj_on (\<lambda>i. bigint_toString (int i)) (set [0..<n])"
  proof (rule inj_onI)
    fix i j assume "bigint_toString (int i) = bigint_toString (int j)"
    then have "dec_value (nonneg_toString10 (int i)) = dec_value (nonneg_toString10 (int j))"
      by (simp add: bigint_toString_nat)
    then show "i = j" by (simp add: dec_value_toString)
  qed
  then have "distinct (map (\<lambda>i. bigint_toString (int i)) [0..<n])" by (simp add: distinct_map)
  moreover have "map fst (numbered_cache n) = map (\<lambda>i. bigint_toString (int i)) [0..<n]"
    by (simp add: numbered_cache_def comp_def)
  ultimately show ?thesis by simp
qed

lemma numbered_cache_fresh:
  assumes "0 \<le> now" and "now \<le> CACHE_TTL cfg"
  shows "purge_expired cfg (numbered_cache n) now = numbered_cache n"
  using assms by (auto simp add: purge_expired_def numbered_cache_def filter_id_conv)

lemma numbered_cache_keys_digits:
  assumes "k \<in> set (map fst (numbered_cache n))"
  shows "list_all is_digit k"
proof -
  from assms obtain i where "k = bigint_toString (int i)" by (auto simp: numbered_cache_def)
  then show ?thesis by (simp add: bigint_toString_nat digits_toString10)
qed

lemma numbered_cache_second:
  assumes "1 < n"
  shows "map_of (tl (numbered_cache n) @ xs) ''1'' = Some \<lparr> cached_value = (), timestamp = 1 \<rparr>"
proof -
  have "[0..<n] = 0 # [Suc 0..<n]" using assms by (intro upt_conv_Cons) simp
  moreover have "[Suc 0..<n] = Suc 0 # [Suc (Suc 0)..<n]" using assms by (intro upt_conv_Cons) simp
  ultimately have "tl (numbered_cache n) =
      (bigint_toString (int (Suc 0)), \<lparr> cached_value = (), timestamp = int (Suc 0) \<rparr>)
      # map (\<lambda>i. (bigint_toString (int i), \<lparr> cached_value = (), timestamp = int i \<rparr>))
          [Suc (Suc 0)..<n]"
    by (simp add: numbered_cache_def)
  moreover have "bigint_toString (int (Suc 0)) = ''1''" by code_simp
  ultimately show ?thesis by simp
qed

text \<open>
  C9, against the claim as stated.  The cache of the overlap engine holds 500 items, none
  of them older than the TTL; the write removes one item only: the cache holds 500 items
  again, and the item written at time 1, one of the oldest 150, is still there.
\<close>

theorem engine_setToCache_keeps_old_items:
  "length (numbered_cache 500) = CACHE_MAX_SIZE engine_config \<and>
   purge_expired engine_config (numbered_cache 500) 1000 = numbered_cache 500 \<and>
   length (engine_setToCache engine_config (numbered_cache 500) ''new'' () 1000 1000) = 500 \<and>
   map_get (engine_setToCache engine_config (numbered_cache 500) ''new'' () 1000 1000) ''1''
     = Some \<lparr> cached_value = (), timestamp = 1 \<rparr>"
proof -
  let ?m = "numbered_cache 500"
  let ?e = "\<lparr> cached_value = (), timestamp = 1000 \<rparr>"
  have len: "length ?m = CACHE_MAX_SIZE engine_config"
    by (simp add: numbered_cache_def engine_config_def)
  have fresh: "purge_expired engine_config ?m 1000 = ?m"
    by (rule numbered_cache_fresh) (simp_all add: engine_config_def)
  have d: "distinct (map fst ?m)" by (rule numbered_cache_keys_distinct)
  have eq: "engine_setToCache engine_config ?m ''new'' () 1000 1000 = map_set (tl ?m) ''new'' ?e"
    using engine_setToCache_evicts_first [OF d, of engine_config 1000 "''new''" "()" 1000]
      len fresh by simp
  have "\<not> list_all is_digit ''new''" by (simp add: is_digit_def)
  then have "''new'' \<notin> set (map fst ?m)" using numbered_cache_keys_digits by blast
  moreover have "set (map fst (tl ?m)) \<subseteq> set (map fst ?m)"
    by (metis list.set_sel(2) map_tl subsetI tl_Nil)
  ultimately have new: "''new'' \<notin> set (map fst (tl ?m))" by blast
  then have app: "map_set (tl ?m) ''new'' ?e = tl ?m @ [(''new'', ?e)]"
    by (simp add: map_set_def)
  have l500: "length (tl ?m @ [(''new'', ?e)]) = 500" by (simp add: numbered_cache_def)
  have "map_of (tl ?m @ [(''new'', ?e)]) ''1'' = Some \<lparr> cached_value = (), timestamp = 1 \<rparr>"
    by (rule numbered_cache_second) simp
  with len fresh l500 show ?thesis unfolding eq app map_get_def by simp
qed

section \<open>Texts produced by the engine\<close>

text \<open>The compressed form of an expanded text is a valid address text.\<close>

lemma isValidFormat_performCompression:
  assumes "expanded_groups gs"
  shows "isValidFormat (performCompression (join '':'' gs))"
proof -
  have len: "length gs = 8" and h4: "list_all hex4 gs"
    using assms by (simp_all add: expanded_groups_def)
  let ?st = "zero_run_search gs"
  show ?thesis
  proof (cases "bestLength ?st < 2")
    case True
    let ?gs = "map strip_zeros gs"
    have c: "performCompression (join '':'' gs) = join '':'' ?gs"
      using True by (simp add: performCompression_expanded [OF assms])
    have hx: "list_all HEX_GROUP ?gs" by (rule list_all_strip [OF h4])
    then have pg: "list_all plain_group ?gs" by (auto simp: list_all_iff HEX_GROUP_plain)
    have hh: "list_all (list_all is_hex) ?gs" using hx by (auto simp: list_all_iff HEX_GROUP_def)
    have ne: "join '':'' ?gs \<noteq> []"
      using pg len by (cases gs) (auto simp: join_Nil_iff list_all_iff plain_group_def)
    have ac: "list_all (\<lambda>c. is_hex c \<or> c = CHR '':'') (join '':'' ?gs)"
      using addr_chars_join [OF hh] by (simp add: addr_chars_def)
    from join_plain_groups [OF pg] have nd: "no_dcolon (join '':'' ?gs)" by simp
    then have cnt: "count_dcolon (join '':'' ?gs) = 0" by (rule no_dcolon_count)
    from nd have n2: "\<not> str_includes (join '':'' ?gs) ''::''" by (simp add: no_dcolon_includes)
    then have n3: "\<not> str_includes (join '':'' ?gs) '':::''" using includes3_includes2 by blast
    have "?gs \<noteq> []" using len by auto
    moreover have "\<forall>g \<in> set ?gs. CHR '':'' \<notin> set g"
      using pg by (auto simp: list_all_iff plain_group_def)
    ultimately have sp: "split_char CHR '':'' (join '':'' ?gs) = ?gs" by (rule split_char_join)
    have "validateFullFormat (join '':'' ?gs)"
      using sp hx len by (simp add: validateFullFormat_def)
    with ne ac cnt n2 n3 show ?thesis unfolding c by (simp add: isValidFormat_def)
  next
    case False
    let ?s = "nat (bestStart ?st)" and ?l = "bestLength ?st"
    from False have pos: "0 < ?l" by simp
    from zero_run_search_found(2) [OF len pos] have run: "zero_run gs ?s ?l"
      by (simp add: longest_leftmost_zero_run_def)
    then have sl: "?s + ?l \<le> 8" using len by (simp add: zero_run_def)
    let ?bs = "map strip_zeros (take ?s gs)" and ?as = "map strip_zeros (drop (?s + ?l) gs)"
    let ?J = "join '':'' ?bs" and ?K = "join '':'' ?as"
    have c: "performCompression (join '':'' gs) = ?J @ ''::'' @ ?K"
      using False by (simp add: performCompression_expanded [OF assms])
    have hb: "list_all hex4 (take ?s gs)" and ha: "list_all hex4 (drop (?s + ?l) gs)"
      using h4 by (auto simp: list_all_iff dest: in_set_takeD in_set_dropD)
    have xb: "list_all HEX_GROUP ?bs" and xa: "list_all HEX_GROUP ?as"
      by (rule list_all_strip [OF hb], rule list_all_strip [OF ha])
    have pb: "list_all plain_group ?bs" and pa: "list_all plain_group ?as"
      using xb xa by (auto simp: list_all_iff HEX_GROUP_plain)
    have hhb: "list_all (list_all is_hex) ?bs" and hha: "list_all (list_all is_hex) ?as"
      using xb xa by (auto simp: list_all_iff HEX_GROUP_def)
    have ac: "list_all (\<lambda>c. is_hex c \<or> c = CHR '':'') (?J @ ''::'' @ ?K)"
      using addr_chars_join [OF hhb] addr_chars_join [OF hha] by (simp add: addr_chars_def)
    from join_plain_groups [OF pb] have nJ: "no_dcolon ?J" and eJ: "?J = [] \<or> last ?J \<noteq> CHR '':''"
      by (auto simp: clean_ends_def)
    from join_plain_groups [OF pa] have nK: "no_dcolon ?K" and eK: "?K = [] \<or> hd ?K \<noteq> CHR '':''"
      by (auto simp: clean_ends_def)
    have cnt: "count_dcolon (?J @ ''::'' @ ?K) = 1" using nJ eJ nK by (rule count_dcolon_mid)
    have n3: "\<not> str_includes (?J @ ''::'' @ ?K) '':::''" using nJ eJ nK eK by (rule not_includes3_mid)
    have i2: "str_includes (?J @ ''::'' @ ?K) ''::''" by (rule includes_mid)
    have parts: "split_dcolon (?J @ ''::'' @ ?K) = [?J, ?K]" using nJ eJ nK by (rule split_dcolon_mid)
    have lb: "length ?bs = ?s" and la: "length ?as = 8 - (?s + ?l)" using sl len by simp_all
    have le: "length ?bs + length ?as \<le> 8" unfolding lb la using sl by simp
    have all: "list_all HEX_GROUP (?bs @ ?as)" using xb xa by simp
    have "validateCompressedFormat (?J @ ''::'' @ ?K) =
        (if length ?bs + length ?as > 8 then False else list_all HEX_GROUP (?bs @ ?as))"
      unfolding validateCompressedFormat_def Let_def parts
      by (simp only: groups_of_join [OF pb] groups_of_join [OF pa] nth_Cons_0 nth_Cons_Suc
          One_nat_def list.size length_Cons) simp
    with le all have v: "validateCompressedFormat (?J @ ''::'' @ ?K)" by simp
    have ne: "?J @ ''::'' @ ?K \<noteq> []" by simp
    from ne ac cnt n3 i2 v show ?thesis unfolding c isValidFormat_def by simp
  qed
qed

lemma match_4_blocks:
  "length s = 4 * k \<Longrightarrow>
     length (match_4 s) = k \<and> concat (match_4 s) = s \<and> (\<forall>g \<in> set (match_4 s). length g = 4)"
proof (induction k arbitrary: s)
  case 0
  then show ?case by simp
next
  case (Suc k)
  then obtain a b c d rest where s: "s = a # b # c # d # rest"
    by (cases s; cases "tl s"; cases "tl (tl s)"; cases "tl (tl (tl s))") auto
  with Suc.prems have "length rest = 4 * k" by simp
  from Suc.IH [OF this] s show ?case by simp
qed

lemma hex_value_append: "hex_value (a @ b) = hex_value a * 16 ^ length b + hex_value b"
proof (induction b rule: rev_induct)
  case Nil
  then show ?case by (simp add: hex_value_def)
next
  case (snoc c b)
  have "hex_value (a @ b @ [c]) = 16 * hex_value (a @ b) + digit_val c"
    using hex_value_snoc [of "a @ b" c] by simp
  with snoc show ?case by (simp add: hex_value_snoc algebra_simps)
qed

lemma hex_value_zeros: "hex_value (replicate n CHR ''0'') = 0"
proof (induction n)
  case 0
  then show ?case by (simp add: hex_value_def)
next
  case (Suc n)
  have dz: "digit_val CHR ''0'' = 0" by (simp add: digit_val_def)
  have "replicate (Suc n) CHR ''0'' = replicate n CHR ''0'' @ [CHR ''0'']"
    by (simp add: replicate_append_same)
  then have "hex_value (replicate (Suc n) CHR ''0'') =
      16 * hex_value (replicate n CHR ''0'') + digit_val CHR ''0''"
    by (simp only: hex_value_snoc)
  with Suc dz show ?case by simp
qed

lemma digit_val_bounds: "0 \<le> digit_val c \<and> digit_val c < 16"
proof (cases "map_of (zip ''0123456789abcdefABCDEF''
                     [0, 1, 2, 3, 4, 5, 6, 7, 8, 9, 10, 11, 12, 13, 14, 15, 10, 11, 12, 13, 14, 15 :: int]) c")
  case None
  then show ?thesis by (simp add: digit_val_def)
next
  case (Some v)
  then have "(c, v) \<in> set (zip ''0123456789abcdefABCDEF''
                     [0, 1, 2, 3, 4, 5, 6, 7, 8, 9, 10, 11, 12, 13, 14, 15, 10, 11, 12, 13, 14, 15 :: int])"
    by (rule map_of_SomeD)
  then have "0 \<le> v \<and> v < 16" by auto
  with Some show ?thesis by (simp add: digit_val_def)
qed

lemma hex_value_bounds: "0 \<le> hex_value s \<and> hex_value s < 16 ^ length s"
proof (induction s rule: rev_induct)
  case Nil
  then show ?case by (simp add: hex_value_def)
next
  case (snoc c s)
  from digit_val_bounds [of c] snoc show ?case
    by (simp add: hex_value_snoc) 
qed

text \<open>The text of an address below \<open>2^128\<close>: eight groups that read back as the address.\<close>

lemma bigIntToIPv6_groups:
  assumes "0 \<le> n" and "n < 2 ^ 128"
  shows "\<exists>gs. expanded_groups gs \<and> bigIntToIPv6 n = join '':'' gs \<and> hex_value (concat gs) = n"
proof -
  let ?h = "nonneg_toString16 n"
  let ?p = "padStart 32 CHR ''0'' ?h"
  have "n < 16 ^ 32" using assms(2) by simp
  then have l: "length ?h \<le> 32" using assms(1) by (intro length_toString16) simp_all
  then have lp: "length ?p = 4 * 8" by (simp add: padStart_def)
  from match_4_blocks [OF lp]
  have m: "length (match_4 ?p) = 8" "concat (match_4 ?p) = ?p" "\<forall>g \<in> set (match_4 ?p). length g = 4"
    by simp_all
  have hp: "list_all is_hex ?p"
    using hex_toString16 [OF assms(1)] by (auto simp add: padStart_def list_all_iff is_hex_zero)
  have "\<forall>g \<in> set (match_4 ?p). list_all is_hex g"
  proof
    fix g assume "g \<in> set (match_4 ?p)"
    then have "set g \<subseteq> set (concat (match_4 ?p))" by auto
    with hp m(2) show "list_all is_hex g" by (auto simp: list_all_iff)
  qed
  with m have eg: "expanded_groups (match_4 ?p)"
    by (simp add: expanded_groups_def hex4_def list_all_iff)
  have "hex_value ?p = n"
    using hex_value_toString [OF assms(1)]
    by (simp add: padStart_def hex_value_append hex_value_zeros)
  with m(2) have hv: "hex_value (concat (match_4 ?p)) = n" by simp
  have "bigIntToIPv6 n = join '':'' (match_4 ?p)"
    using assms(1) by (simp add: bigIntToIPv6_def bigint_toString16_def Let_def)
  with eg hv show ?thesis by blast
qed

section \<open>Valid CIDR texts\<close>

lemma join_Cons_Cons: "join sep ((x # g) # gs) = x # join sep (g # gs)"
  by (cases gs) simp_all

lemma join_split_char: "join [c] (split_char c s) = s"
proof (induction s)
  case Nil
  then show ?case by simp
next
  case (Cons x xs)
  obtain g gs where sp: "split_char c xs = g # gs"
    using split_char_nonempty [of c xs] by (cases "split_char c xs") auto
  with Cons show ?case by (cases "x = c") (simp_all add: join_Cons_Cons)
qed

lemma valid_cidr_parts:
  assumes "valid_cidr c"
  obtains a d where "split_char CHR ''/'' c = [a, d]" and "c = a @ ''/'' @ d"
    and "isValidFormat a" and "1 \<le> length d" and "length d \<le> 3" and "list_all is_digit d"
    and "dec_value d \<le> 128"
proof -
  from assms obtain a d where sp: "split_char CHR ''/'' c = [a, d]"
    and rest: "isValidFormat a" "1 \<le> length d" "length d \<le> 3" "list_all is_digit d"
      "dec_value d \<le> 128"
    by (auto simp: valid_cidr_def split: list.splits)
  have "c = join ''/'' (split_char CHR ''/'' c)" by (simp add: join_split_char)
  then have "c = a @ ''/'' @ d" unfolding sp by simp
  with sp rest that show ?thesis by blast
qed

lemma isValidFormat_chars: "isValidFormat a \<Longrightarrow> a \<noteq> [] \<and> addr_chars a"
  by (simp add: isValidFormat_def addr_chars_def split: if_splits)

lemma is_digit_hex: "is_digit c \<Longrightarrow> is_hex c"
  by (auto simp: is_digit_def is_hex_def)

lemma addr_char_plain:
  assumes "is_hex c \<or> c = CHR '':''"
  shows "\<not> is_js_space c" and "\<not> is_line_terminator c" and "c \<noteq> CHR ''/''" and "c \<noteq> CHR ''%''"
proof -
  have "\<not> is_js_space (CHR '':'')" "\<not> is_line_terminator (CHR '':'')"
    by (simp_all add: is_js_space_def is_line_terminator_def)
  moreover have "\<not> is_hex (CHR ''/'')" "\<not> is_hex (CHR ''%'')" "\<not> is_hex (CHR 0x0A)" "\<not> is_hex (CHR 0x0D)"
    by (simp_all add: is_hex_def)
  moreover have "is_line_terminator c \<Longrightarrow> c = CHR 0x0A \<or> c = CHR 0x0D"
    by (simp add: is_line_terminator_def)
  ultimately show "\<not> is_js_space c" and "\<not> is_line_terminator c" and "c \<noteq> CHR ''/''"
    and "c \<noteq> CHR ''%''"
    using assms is_hex_not_space by auto
qed

lemma trim_id:
  assumes "s \<noteq> []" and "\<not> is_js_space (hd s)" and "\<not> is_js_space (last s)"
  shows "trim s = s"
proof -
  have 1: "dropWhile is_js_space s = s" using assms(1,2) by (cases s) simp_all
  have "dropWhile is_js_space (rev s) = rev s"
    using assms(1,3) by (cases "rev s") (simp_all add: last_rev [symmetric] hd_rev)
  with 1 show ?thesis by (simp add: trim_def)
qed

lemma match_CIDR_parts:
  assumes a: "a \<noteq> []" "addr_chars a"
    and d: "1 \<le> length d" "length d \<le> 3" "list_all is_digit d"
  shows "match_CIDR (a @ ''/'' @ d) = Some (a, d)"
proof -
  have nd: "\<forall>c \<in> set (rev d). c \<noteq> CHR ''/''"
    using d(3) addr_char_plain(3) is_digit_hex by (auto simp: list_all_iff)
  have r: "rev (a @ ''/'' @ d) = rev d @ CHR ''/'' # rev a" by simp
  have "takeWhile (\<lambda>c. c \<noteq> CHR ''/'') (rev d @ CHR ''/'' # rev a) =
      rev d @ takeWhile (\<lambda>c. c \<noteq> CHR ''/'') (CHR ''/'' # rev a)"
    by (rule takeWhile_append2) (use nd in blast)
  then have tw: "takeWhile (\<lambda>c. c \<noteq> CHR ''/'') (rev d @ CHR ''/'' # rev a) = rev d" by simp
  have "dropWhile (\<lambda>c. c \<noteq> CHR ''/'') (rev d @ CHR ''/'' # rev a) =
      dropWhile (\<lambda>c. c \<noteq> CHR ''/'') (CHR ''/'' # rev a)"
    by (rule dropWhile_append2) (use nd in blast)
  then have dw: "dropWhile (\<lambda>c. c \<noteq> CHR ''/'') (rev d @ CHR ''/'' # rev a) = CHR ''/'' # rev a"
    by simp
  have nl: "\<not> list_ex is_line_terminator (rev a)"
    using a(2) addr_char_plain(2) by (auto simp: list_ex_iff addr_chars_def list_all_iff)
  show ?thesis
    unfolding match_CIDR_def r tw dw Let_def using a(1) nl d by simp
qed

lemma digits_no_prefix:
  assumes "d \<noteq> []" and "list_all is_digit d"
  shows "dropWhile is_js_space d = d" and "hd d \<noteq> CHR ''-''" and "hd d \<noteq> CHR ''+''"
    and "takeWhile is_digit d = d" and "\<not> starts_with d ''0x''" and "\<not> starts_with d ''0X''"
proof -
  from assms obtain c r where d: "d = c # r" and c: "is_digit c" and r: "list_all is_digit r"
    by (cases d) auto
  have "\<not> is_js_space c" using c is_digit_hex is_hex_not_space by blast
  then show "dropWhile is_js_space d = d" using d by simp
  have "\<not> is_digit (CHR ''-'')" "\<not> is_digit (CHR ''+'')" "\<not> is_digit (CHR ''x'')" "\<not> is_digit (CHR ''X'')"
    by (simp_all add: is_digit_def)
  with c d r show "hd d \<noteq> CHR ''-''" and "hd d \<noteq> CHR ''+''"
    and "\<not> starts_with d ''0x''" and "\<not> starts_with d ''0X''"
    by (auto simp: neq_Nil_conv elim!: starts_with.elims)
  show "takeWhile is_digit d = d" using assms(2) by (simp add: takeWhile_eq_all_conv list_all_iff)
qed

lemma parseInt_digits:
  assumes "d \<noteq> []" and "list_all is_digit d"
  shows "parseInt10 d = Some (dec_value d)" and "parseInt d = Some (dec_value d)"
proof -
  note n = digits_no_prefix [OF assms]
  show "parseInt10 d = Some (dec_value d)"
    unfolding parseInt10_def Let_def n(1) using n(2,3) assms(1) by (simp add: n(4))
  show "parseInt d = Some (dec_value d)"
    unfolding parseInt_def Let_def n(1) using n(2,3,5,6) assms(1) by (simp add: n(4))
qed

lemma match_ZONE_ID_none:
  assumes "CHR ''%'' \<notin> set a"
  shows "match_ZONE_ID a = None"
proof -
  have "set (butlast a) \<subseteq> set a" by (auto dest: in_set_butlastD)
  with assms have "\<forall>c \<in> set (rev (butlast a)). c \<noteq> CHR ''%''" by auto
  then have dw: "dropWhile (\<lambda>c. c \<noteq> CHR ''%'') (rev (butlast a)) = []" by simp
  show ?thesis unfolding match_ZONE_ID_def Let_def dw by simp
qed

lemma dec_value_nonneg: "0 \<le> dec_value s"
proof (induction s rule: rev_induct)
  case Nil
  then show ?case by (simp add: dec_value_def)
next
  case (snoc c s)
  with digit_val_bounds [of c] show ?case by (simp add: dec_value_snoc)
qed

text \<open>What \<open>validateIPv6\<close> and \<open>getNetworkInfo\<close> return on a valid CIDR text.\<close>

lemma validateIPv6_valid_cidr:
  assumes sp: "c = a @ ''/'' @ d" and a: "isValidFormat a"
    and d: "1 \<le> length d" "length d \<le> 3" "list_all is_digit d" "dec_value d \<le> 128"
    and e: "expandAddress a = Inr e"
  shows "validateIPv6 c =
     Inr \<lparr> v_original = c, cleanAddress = a, v_prefix = Some (dec_value d), zoneId = None,
           expanded = e, compressed = compressAddress a \<rparr>"
proof -
  from isValidFormat_chars [OF a] have ne: "a \<noteq> []" and ac: "addr_chars a" by simp_all
  have dn: "d \<noteq> []" using d(1) by auto
  have hd_c: "hd c = hd a" and last_c: "last c = last d" using sp ne dn by simp_all
  have "hd a \<in> set a" using ne by simp
  then have "\<not> is_js_space (hd a)"
    using ac addr_char_plain(1) by (auto simp: addr_chars_def list_all_iff)
  moreover have "last d \<in> set d" using dn by simp
  then have "\<not> is_js_space (last d)"
    using d(3) is_digit_hex is_hex_not_space by (auto simp: list_all_iff)
  moreover have "c \<noteq> []" using sp by simp
  ultimately have tr: "trim c = c" using hd_c last_c by (intro trim_id) simp_all
  have mc: "match_CIDR c = Some (a, d)" unfolding sp using ne ac d(1,2,3) by (rule match_CIDR_parts)
  have pi: "parseInt10 d = Some (dec_value d)" using dn d(3) by (rule parseInt_digits)
  have "CHR ''%'' \<notin> set a"
    using ac addr_char_plain(4) by (auto simp: addr_chars_def list_all_iff)
  then have mz: "match_ZONE_ID a = None" by (rule match_ZONE_ID_none)
  have sb: "strip_brackets a = a" using ac by (rule addr_chars_strip_brackets)
  show ?thesis
    using \<open>c \<noteq> []\<close> a e d(4) dec_value_nonneg [of d]
    by (simp add: validateIPv6_def tr performValidation_def mc pi mz sb Let_def)
qed

lemma getNetworkInfo_valid_cidr:
  assumes split: "split_char CHR ''/'' c = [a, d]" and sp: "c = a @ ''/'' @ d"
    and a: "isValidFormat a"
    and d: "1 \<le> length d" "length d \<le> 3" "list_all is_digit d" "dec_value d \<le> 128"
    and gs: "expanded_groups gs" and e: "expandAddress a = Inr (join '':'' gs)"
  shows "\<exists>info. getNetworkInfo c = Inr info \<and> prefix info = dec_value d \<and>
     networkBigInt info =
       hex_value (concat gs) div 2 ^ nat (128 - dec_value d) * 2 ^ nat (128 - dec_value d) \<and>
     broadcastBigInt info = networkBigInt info + 2 ^ nat (128 - dec_value d) - 1"
proof -
  let ?p = "dec_value d" and ?ip = "hex_value (concat gs)"
  have dn: "d \<noteq> []" using d(1) by auto
  have p0: "0 \<le> ?p" by (rule dec_value_nonneg)
  note v = validateIPv6_valid_cidr [OF sp a d e]
  have pi: "parseInt10 d = Some ?p" using dn d(3) by (rule parseInt_digits)
  have nc: "\<forall>g \<in> set gs. CHR '':'' \<notin> set g"
    using gs hex4_plain by (auto simp: expanded_groups_def list_all_iff plain_group_def)
  have f: "filter (\<lambda>c. c \<noteq> CHR '':'') (join '':'' gs) = concat gs"
    using nc by (rule filter_join_colon)
  have "gs \<noteq> []" and "\<forall>g \<in> set gs. g \<noteq> [] \<and> list_all is_hex g"
    using gs by (auto simp: expanded_groups_def list_all_iff hex4_def)
  then have "concat gs \<noteq> []" and "list_all is_hex (concat gs)"
    by (auto simp: list_all_iff neq_Nil_conv)
  then have "BigInt_0x (concat gs) = Some ?ip" by (rule BigInt_0x_hex)
  then have ip: "ipv6ToBigInt a = Inr ?ip" by (simp add: ipv6ToBigInt_def e f)
  have "length (concat gs) = 32"
    using gs by (simp add: expanded_groups_def hex4_def list_all_iff length_concat sum_list_triv
        cong: map_cong)
  with hex_value_bounds [of "concat gs"] have ipb: "0 \<le> ?ip" "?ip < 2 ^ 128" by simp_all
  have "\<exists>m. calculateNetworkMask (Some ?p) = Inr m"
    using p0 d(4) by (simp add: calculateNetworkMask_def)
  then obtain m where m: "calculateNetworkMask (Some ?p) = Inr m" ..
  have base: "?ip AND m = ?ip div 2 ^ nat (128 - ?p) * 2 ^ nat (128 - ?p)"
    using ipb p0 d(4) m by (rule network_base)
  show ?thesis
    by (simp add: getNetworkInfo_def v split array_get_def parseInt10_opt_def pi ip m Let_def base
        push_bit_eq_mult)
qed

lemma str_includes_char: "c \<in> set s \<Longrightarrow> str_includes s [c]"
  by (induction s) auto

lemma addr_chars_no_slash:
  assumes "addr_chars s"
  shows "CHR ''/'' \<notin> set s"
proof
  assume "CHR ''/'' \<in> set s"
  moreover from assms have "\<forall>c \<in> set s. is_hex c \<or> c = CHR '':''"
    by (simp add: addr_chars_def list_all_iff)
  ultimately have "is_hex (CHR ''/'') \<or> CHR ''/'' = CHR '':''" by blast
  then show False by (simp add: is_hex_def)
qed

lemma digits_no_slash:
  assumes "list_all is_digit d"
  shows "CHR ''/'' \<notin> set d"
proof
  assume "CHR ''/'' \<in> set d"
  moreover from assms have "\<forall>c \<in> set d. is_digit c" by (simp add: list_all_iff)
  ultimately have "is_digit (CHR ''/'')" by blast
  then show False by (simp add: is_digit_def)
qed

lemma validateAndGetNetworkInfo_valid_cidr:
  assumes split: "split_char CHR ''/'' c = [a, d]" and sp: "c = a @ ''/'' @ d"
    and a: "isValidFormat a"
    and d: "1 \<le> length d" "length d \<le> 3" "list_all is_digit d" "dec_value d \<le> 128"
    and gs: "expanded_groups gs" and e: "expandAddress a = Inr (join '':'' gs)"
  shows "\<exists>info. getNetworkInfo c = Inr info \<and>
     validateAndGetNetworkInfo c = Inr (network_info.extend info \<lparr> original = c \<rparr>) \<and>
     prefix info = dec_value d \<and>
     networkBigInt info =
       hex_value (concat gs) div 2 ^ nat (128 - dec_value d) * 2 ^ nat (128 - dec_value d) \<and>
     broadcastBigInt info = networkBigInt info + 2 ^ nat (128 - dec_value d) - 1"
proof -
  from getNetworkInfo_valid_cidr [OF split sp a d gs e] obtain info where
    i: "getNetworkInfo c = Inr info" and r: "prefix info = dec_value d"
      "networkBigInt info =
         hex_value (concat gs) div 2 ^ nat (128 - dec_value d) * 2 ^ nat (128 - dec_value d)"
      "broadcastBigInt info = networkBigInt info + 2 ^ nat (128 - dec_value d) - 1"
    by blast
  note v = validateIPv6_valid_cidr [OF sp a d e]
  have inc: "str_includes c ''/''" unfolding sp by (rule str_includes_char) simp
  have "validateAndGetNetworkInfo c = Inr (network_info.extend info \<lparr> original = c \<rparr>)"
    unfolding validateAndGetNetworkInfo_def using inc by (simp add: v i)
  with i r show ?thesis by blast
qed

section \<open>Properties of the suggestion\<close>

text \<open>The base of a block lies in the address space.\<close>

lemma block_base_bounds:
  fixes ip :: int
  assumes "0 \<le> ip" and "ip < 2 ^ 128"
  shows "0 \<le> ip div 2 ^ k * 2 ^ k" and "ip div 2 ^ k * 2 ^ k < 2 ^ 128"
proof -
  have p: "(0 :: int) < 2 ^ k" by simp
  have "0 \<le> ip div 2 ^ k" using assms(1) p by (simp add: pos_imp_zdiv_nonneg_iff)
  then show "0 \<le> ip div 2 ^ k * 2 ^ k" by simp
  have "ip div 2 ^ k * 2 ^ k + ip mod 2 ^ k = ip" by (rule div_mult_mod_eq)
  moreover have "0 \<le> ip mod 2 ^ k" using p by simp
  ultimately have "ip div 2 ^ k * 2 ^ k \<le> ip" by linarith
  with assms(2) show "ip div 2 ^ k * 2 ^ k < 2 ^ 128" by simp
qed

text \<open>The text of a suggestion is a valid CIDR text, and reads as the candidate base
  and the prefix length it was made of.\<close>

lemma prefix_text:
  assumes "0 \<le> p" and "p \<le> 128"
  shows "1 \<le> length (bigint_toString p)" and "length (bigint_toString p) \<le> 3"
    and "list_all is_digit (bigint_toString p)" and "dec_value (bigint_toString p) = p"
proof -
  have t: "bigint_toString p = nonneg_toString10 p" using assms(1) by (simp add: bigint_toString_def)
  have "nonneg_toString10 p \<noteq> []" by (rule toString10_nonempty)
  then show "1 \<le> length (bigint_toString p)" unfolding t by (cases "nonneg_toString10 p") simp_all
  have "p < 10 ^ 3" using assms(2) by simp
  with assms(1) show "length (bigint_toString p) \<le> 3" unfolding t by (intro length_toString10) simp_all
  show "list_all is_digit (bigint_toString p)" unfolding t using assms(1) by (rule digits_toString10)
  show "dec_value (bigint_toString p) = p" unfolding t using assms(1) by (rule dec_value_toString)
qed

lemma suggestion_text_network:
  assumes cand: "0 \<le> cand" "cand < 2 ^ 128" and p: "0 \<le> p" "p \<le> 128"
  shows "\<exists>info. validateAndGetNetworkInfo (suggestion_text p cand) =
        Inr (network_info.extend info \<lparr> original = suggestion_text p cand \<rparr>) \<and>
     networkBigInt info = cand div 2 ^ nat (128 - p) * 2 ^ nat (128 - p) \<and>
     broadcastBigInt info = networkBigInt info + 2 ^ nat (128 - p) - 1"
proof -
  from bigIntToIPv6_groups [OF cand] obtain gs where gs: "expanded_groups gs"
    and b: "bigIntToIPv6 cand = join '':'' gs" and h: "hex_value (concat gs) = cand" by blast
  let ?a = "performCompression (join '':'' gs)" and ?d = "bigint_toString p"
  have t: "suggestion_text p cand = ?a @ ''/'' @ ?d"
    by (simp add: suggestion_text_def compressAddress_def b)
  have a: "isValidFormat ?a" using gs by (rule isValidFormat_performCompression)
  have e: "expandAddress ?a = Inr (join '':'' gs)"
    unfolding expandAddress_def using gs by (rule performExpansion_performCompression)
  note d = prefix_text [OF p]
  from isValidFormat_chars [OF a] have ac: "addr_chars ?a" by simp
  have na: "CHR ''/'' \<notin> set ?a" using ac by (rule addr_chars_no_slash)
  have nd: "CHR ''/'' \<notin> set ?d" using d(3) by (rule digits_no_slash)
  have "split_char CHR ''/'' (join ''/'' [?a, ?d]) = [?a, ?d]"
    using na nd by (intro split_char_join) simp_all
  then have split: "split_char CHR ''/'' (suggestion_text p cand) = [?a, ?d]"
    unfolding t by simp
  from validateAndGetNetworkInfo_valid_cidr [OF split t a d(1,2,3) _ gs e] d(4) p(2) h
  show ?thesis by auto
qed

lemma hasOverlap_bases:
  assumes "networkBigInt n1 = networkBigInt m1" and "broadcastBigInt n1 = broadcastBigInt m1"
    and "networkBigInt n2 = networkBigInt m2" and "broadcastBigInt n2 = broadcastBigInt m2"
  shows "hasOverlap (analyzeOverlap n1 n2) = hasOverlap (analyzeOverlap m1 m2)"
  unfolding hasOverlap_analyzeOverlap assms ..

lemma checkOverlap_suggestion:
  assumes cand: "0 \<le> cand" "cand < 2 ^ 128" and p: "0 \<le> p" "p \<le> 128"
    and al: "cand mod 2 ^ nat (128 - p) = 0"
    and w: "validateAndGetNetworkInfo wan = Inr w" and ne: "wan \<noteq> []"
  shows "s_hasOverlap (checkOverlap (suggestion_text p cand) wan) =
     Some (hasOverlap (analyzeOverlap (range_of cand (cand + 2 ^ nat (128 - p) - 1)) w))"
proof -
  from suggestion_text_network [OF cand p] obtain info where
    s: "validateAndGetNetworkInfo (suggestion_text p cand) =
        Inr (network_info.extend info \<lparr> original = suggestion_text p cand \<rparr>)"
    and n: "networkBigInt info = cand div 2 ^ nat (128 - p) * 2 ^ nat (128 - p)"
    and b: "broadcastBigInt info = networkBigInt info + 2 ^ nat (128 - p) - 1"
    by blast
  let ?s = "network_info.extend info \<lparr> original = suggestion_text p cand \<rparr>"
  have "cand div 2 ^ nat (128 - p) * 2 ^ nat (128 - p) = cand"
    using al by (simp add: mod_eq_0_iff_dvd)
  with n b have nb: "networkBigInt ?s = cand" "broadcastBigInt ?s = cand + 2 ^ nat (128 - p) - 1"
    by (simp_all add: network_info.defs)
  have st: "suggestion_text p cand \<noteq> []" by (simp add: suggestion_text_def)
  have "hasOverlap (analyzeOverlap ?s w) =
      hasOverlap (analyzeOverlap (range_of cand (cand + 2 ^ nat (128 - p) - 1)) w)"
    by (rule hasOverlap_bases) (simp_all add: nb range_of_def)
  then show ?thesis
    by (simp add: checkOverlap_def checkOverlapAdvanced_def s w st ne Let_def)
qed

text \<open>
  C4.  For every valid CIDR text of the anchor, whatever the text of the conflicting
  range is, \<open>generateSuggestion\<close> returns the text of the candidate that the suggestion of
  the specification finds when its increment is \<open>2^(128 - prefix length of the anchor)\<close>:
  the first candidate is the base of the anchor plus the increment, the second (only when
  the first exceeds \<open>2^128 - 1\<close>) the base minus the increment, with no suggestion when that
  is below 0; the block of the surviving candidate is checked against the anchor by the
  classifier and there is no suggestion when they overlap; no other candidate is tried.
  The prefix length of the conflicting range plays no part.
\<close>

theorem generateSuggestion_uses_anchor_prefix:
  assumes "valid_cidr anchor"
  shows "\<exists>w. validateAndGetNetworkInfo anchor = Inr w \<and>
     generateSuggestion conflicting anchor =
       map_option (suggestion_text (prefix w)) (suggest_spec (prefix w) w)"
proof -
  from assms obtain a d where split: "split_char CHR ''/'' anchor = [a, d]"
    and sp: "anchor = a @ ''/'' @ d" and a: "isValidFormat a"
    and d: "1 \<le> length d" "length d \<le> 3" "list_all is_digit d" "dec_value d \<le> 128"
    by (rule valid_cidr_parts)
  from isValidFormat_expands [OF a] obtain gs where gs: "expanded_groups gs"
    and e: "expandAddress a = Inr (join '':'' gs)"
    unfolding expandAddress_def by blast
  let ?p = "dec_value d" and ?ip = "hex_value (concat gs)"
  let ?k = "nat (128 - ?p)"
  from validateAndGetNetworkInfo_valid_cidr [OF split sp a d gs e] obtain info where
    gi: "getNetworkInfo anchor = Inr info"
    and vw: "validateAndGetNetworkInfo anchor = Inr (network_info.extend info \<lparr> original = anchor \<rparr>)"
    and pi: "prefix info = ?p"
    and nb: "networkBigInt info = ?ip div 2 ^ ?k * 2 ^ ?k"
    and bb: "broadcastBigInt info = networkBigInt info + 2 ^ ?k - 1"
    by blast
  let ?w = "network_info.extend info \<lparr> original = anchor \<rparr>"
  let ?base = "networkBigInt info"
  have wf: "prefix ?w = ?p" "networkBigInt ?w = ?base"
    using pi by (simp_all add: network_info.defs)
  have dn: "d \<noteq> []" using d(1) by auto
  have p0: "0 \<le> ?p" by (rule dec_value_nonneg)
  have pl: "parseInt_opt (array_get (split_char CHR ''/'' anchor) 1) = Some ?p"
    unfolding split using parseInt_digits(2) [OF dn d(3)] by (simp add: array_get_def parseInt_opt_def)
  have ne: "anchor \<noteq> []" unfolding sp by simp
  have "length (concat gs) = 32"
    using gs by (simp add: expanded_groups_def hex4_def list_all_iff length_concat sum_list_triv
        cong: map_cong)
  with hex_value_bounds [of "concat gs"] have ipb: "0 \<le> ?ip" "?ip < 2 ^ 128" by simp_all
  have base: "0 \<le> ?base" "?base < 2 ^ 128"
    unfolding nb using ipb by (rule block_base_bounds)+
  have inc0: "(0 :: int) < 2 ^ ?k" by simp
  have al: "?base mod 2 ^ ?k = 0" unfolding nb by simp
  have sh: "(if 128 - ?p \<ge> 0 then push_bit (nat (128 - ?p)) 1
             else drop_bit (nat (?p - 128)) (1 :: int)) = 2 ^ ?k"
    using d(4) by (simp add: push_bit_eq_mult)
  have mx: "push_bit 128 1 - (1 :: int) = 2 ^ 128 - 1" by (simp add: push_bit_eq_mult)
  define cand where "cand =
     (if ?base + 2 ^ ?k > 2 ^ 128 - 1 then
        (let second = ?base - 2 ^ ?k in if second < 0 then None else Some second)
      else Some (?base + 2 ^ ?k))"
  have gen: "generateSuggestion conflicting anchor =
     (case cand of None \<Rightarrow> None
      | Some c \<Rightarrow> if s_hasOverlap (checkOverlap (suggestion_text ?p c) anchor) \<noteq> Some True
                  then Some (suggestion_text ?p c) else None)"
    unfolding generateSuggestion_def Let_def unfolding gi pl cand_def using d(4)
    by (simp add: suggestion_text_def Let_def push_bit_eq_mult)
  have spec: "suggest_spec ?p ?w =
     (case cand of None \<Rightarrow> None
      | Some c \<Rightarrow> if hasOverlap (analyzeOverlap (range_of c (c + 2 ^ ?k - 1)) ?w)
                  then None else Some c)"
    unfolding suggest_spec_def Let_def wf cand_def by simp
  have "generateSuggestion conflicting anchor =
      map_option (suggestion_text ?p) (suggest_spec ?p ?w)"
  proof (cases cand)
    case None
    then show ?thesis unfolding gen spec by simp
  next
    case (Some c)
    have c: "0 \<le> c \<and> c < 2 ^ 128 \<and> c mod 2 ^ ?k = 0"
    proof (cases "?base + 2 ^ ?k > 2 ^ 128 - 1")
      case True
      with Some have ce: "c = ?base - 2 ^ ?k" and c0: "0 \<le> ?base - 2 ^ ?k"
        unfolding cand_def by (simp_all add: Let_def split: if_splits)
      have cm: "(?base - 2 ^ ?k) mod 2 ^ ?k = 0"
        using al by (simp add: mod_eq_0_iff_dvd)
      have "?base - 2 ^ ?k < 2 ^ 128" using base(2) inc0 by linarith
      with c0 cm show ?thesis unfolding ce by blast
    next
      case False
      with Some have ce: "c = ?base + 2 ^ ?k" unfolding cand_def by simp
      have cm: "(?base + 2 ^ ?k) mod 2 ^ ?k = 0"
        using al by (simp add: mod_eq_0_iff_dvd)
      have "0 \<le> ?base + 2 ^ ?k" using base(1) inc0 by linarith
      moreover have "?base + 2 ^ ?k < 2 ^ 128" using False by linarith
      ultimately show ?thesis using cm unfolding ce by blast
    qed
    then have c1: "0 \<le> c" and c2: "c < 2 ^ 128" and c3: "c mod 2 ^ ?k = 0" by simp_all
    from checkOverlap_suggestion [OF c1 c2 p0 d(4) c3 vw ne]
    show ?thesis unfolding gen spec Some by simp
  qed
  with vw wf show ?thesis by simp
qed

theorem generateSuggestion_uses_anchor_prefix_witness:
  "valid_cidr example_anchor \<and>
   prefix (projr (validateAndGetNetworkInfo example_anchor)) = 32 \<and>
   suggest_spec 32 (projr (validateAndGetNetworkInfo example_anchor)) =
     Some 42540766490510755371168322545197776896 \<and>
   generateSuggestion example_conflicting example_anchor = Some ''2001:db9::/32''"
proof -
  have v: "valid_cidr example_anchor" by code_simp
  from generateSuggestion_uses_anchor_prefix [OF v, of example_conflicting] obtain w where
    w: "validateAndGetNetworkInfo example_anchor = Inr w"
    and g: "generateSuggestion example_conflicting example_anchor =
       map_option (suggestion_text (prefix w)) (suggest_spec (prefix w) w)" by blast
  have pw: "w = projr (validateAndGetNetworkInfo example_anchor)" unfolding w by simp
  have p: "prefix (projr (validateAndGetNetworkInfo example_anchor)) = 32" by code_simp
  have s: "suggest_spec 32 (projr (validateAndGetNetworkInfo example_anchor)) =
     Some 42540766490510755371168322545197776896" by code_simp
  have t: "suggestion_text 32 42540766490510755371168322545197776896 = ''2001:db9::/32''"
    by code_simp
  from g have "generateSuggestion example_conflicting example_anchor = Some ''2001:db9::/32''"
    unfolding pw p s by (simp add: t)
  with v p s show ?thesis by simp
qed

text \<open>
  C4, against the claim as stated.  With the increment of the prefix length of the
  conflicting range there would be no suggestion for the conflicting \<open>2001:db8:1::/48\<close>
  and the anchor \<open>2001:db8::/32\<close>: the candidate \<open>base + 2^80\<close> lies in the anchor.
  \<open>generateSuggestion\<close> suggests the block after the anchor.
\<close>

theorem generateSuggestion_ignores_conflicting_prefix:
  "valid_cidr example_conflicting \<and> valid_cidr example_anchor \<and>
   s_hasOverlap (checkOverlap example_conflicting example_anchor) = Some True \<and>
   prefix (projr (validateAndGetNetworkInfo example_conflicting)) = 48 \<and>
   suggest_spec 48 (projr (validateAndGetNetworkInfo example_anchor)) = None \<and>
   generateSuggestion example_conflicting example_anchor = Some ''2001:db9::/32''"
  by code_simp

end
